theory Spec2Isabelle
  imports Main "HOL-Library.Word" "HOL-Library.AList"
begin

section \<open>Machine integers\<close>

text \<open>
  Go's \<^verbatim>\<open>int64\<close> (node ids, task ids, slot counts, terms) is a 64-bit word; \<open>sint\<close>
  reads its signed value, and the signed comparisons of the source are comparisons of
  \<open>sint\<close>. Subtraction and increment wrap around as in Go.
\<close>

type_synonym int64 = "64 word"

section \<open>Task scheduler: slot allocation (task\_scheduler.go)\<close>

text \<open>
  The snapshot \<^verbatim>\<open>map[int64]*session.WorkerSlots\<close> is a map from node id to the
  \<^verbatim>\<open>AvailableSlots\<close> field, the only field the scheduler reads or writes. Go iterates a
  map in an order that may differ at every \<^verbatim>\<open>range\<close>; the order of one iteration is the
  list of keys \<open>order\<close> given to the function.
\<close>

type_synonym workerSlots = "int64 \<rightharpoonup> int64"

text \<open>
  The \<^verbatim>\<open>for ... range workerSlots\<close> loop of \<^verbatim>\<open>pickNode\<close>. \<open>Fits nodeID avail\<close> is the
  early \<^verbatim>\<open>return nodeID\<close>, at a node with \<open>avail\<close> slots; \<open>NoFit fallbackNodeID maxAvailable\<close>
  is the loop running to its end.
\<close>

datatype scan_result = Fits int64 int64 | NoFit int64 int64

fun pickNode_scan :: "workerSlots \<Rightarrow> int64 \<Rightarrow> int64 \<Rightarrow> int64 \<Rightarrow> int64 list \<Rightarrow> scan_result" where
  "pickNode_scan ws taskSlot fallbackNodeID maxAvailable [] = NoFit fallbackNodeID maxAvailable"
| "pickNode_scan ws taskSlot fallbackNodeID maxAvailable (nodeID # rest) =
     (case ws nodeID of
        None \<Rightarrow> pickNode_scan ws taskSlot fallbackNodeID maxAvailable rest
      | Some avail \<Rightarrow>
          if sint taskSlot \<le> sint avail then Fits nodeID avail
          else if sint maxAvailable < sint avail \<and> 0 < sint avail
            then pickNode_scan ws taskSlot nodeID avail rest
            else pickNode_scan ws taskSlot fallbackNodeID maxAvailable rest)"

text \<open>\<^verbatim>\<open>pickNode\<close>: the returned node id and the snapshot as the call leaves it.\<close>

definition pickNode :: "int64 list \<Rightarrow> workerSlots \<Rightarrow> int64 \<Rightarrow> int64 \<times> workerSlots" where
  "pickNode order ws taskSlot =
     (case pickNode_scan ws taskSlot (- 1) (- 1) order of
        Fits nodeID avail \<Rightarrow> (nodeID, ws(nodeID \<mapsto> avail - taskSlot))
      | NoFit fallbackNodeID maxAvailable \<Rightarrow>
          if fallbackNodeID \<noteq> - 1 then (fallbackNodeID, ws(fallbackNodeID \<mapsto> 0))
          else (- 1, ws))"

text \<open>\<^verbatim>\<open>hasAvailableSlots\<close>: some entry of the snapshot is positive.\<close>

definition hasAvailableSlots :: "int64 list \<Rightarrow> workerSlots \<Rightarrow> bool" where
  "hasAvailableSlots order ws =
     list_ex (\<lambda>nodeID. case ws nodeID of None \<Rightarrow> False | Some avail \<Rightarrow> 0 < sint avail) order"

section \<open>Task scheduler: tasks, queue and running map (task\_scheduler.go)\<close>

datatype JobState =
  JobStateNone | JobStateInit | JobStateInProgress | JobStateFinished | JobStateFailed
  | JobStateRetry

text \<open>
  The fields the scheduler reads and writes through the \<^verbatim>\<open>Task\<close> interface
  (\<^verbatim>\<open>GetTaskID\<close>, \<^verbatim>\<open>GetNodeID\<close>, \<^verbatim>\<open>GetTaskSlot\<close>, \<^verbatim>\<open>GetState\<close>, \<^verbatim>\<open>GetFailReason\<close>
  and the three times). Times are instants on an integer time line.
\<close>

record Task =
  taskID :: int64
  nodeID :: int64
  taskSlot :: int64
  taskState :: JobState
  failReason :: string
  queueTime :: int
  startTime :: int
  endTime :: int

text \<open>
  Modelled from the spec: \<^verbatim>\<open>Task.SetState(state, reason)\<close> is a method of the task kinds,
  which are not among the sources; the spec's abort "transitions the task to failed with
  reason canceled", so the call stores the state and the fail reason in the task.
\<close>

definition SetState :: "JobState \<Rightarrow> string \<Rightarrow> Task \<Rightarrow> Task" where
  "SetState st reason task = task\<lparr>taskState := st, failReason := reason\<rparr>"

text \<open>
  Modelled from the spec: the pending queue (\<^verbatim>\<open>schedulePolicy\<close>, built by
  \<^verbatim>\<open>newFairQueuePolicy\<close>) is not among the sources. Task ids are unique and the scheduler
  addresses queued tasks by id (\<^verbatim>\<open>Get\<close>, \<^verbatim>\<open>Exist\<close>, \<^verbatim>\<open>Remove\<close>), so the queue is a list
  of tasks in enqueue order holding at most one task per id: \<open>Push\<close> appends a task whose
  id is not queued yet, \<open>Remove\<close> takes the task with the given id out. Which queued task
  the fairness policy pops is left open: \<open>sel\<close> gives the position of the task that \<open>Pop\<close>
  takes (the head of the queue when \<open>sel\<close> points outside it); an empty queue pops \<open>None\<close>,
  the source's \<^verbatim>\<open>nil\<close>.
\<close>

type_synonym schedulePolicy = "Task list"

definition Get :: "int64 \<Rightarrow> schedulePolicy \<Rightarrow> Task option" where
  "Get tid q = find (\<lambda>t. taskID t = tid) q"

definition Exist :: "int64 \<Rightarrow> schedulePolicy \<Rightarrow> bool" where
  "Exist tid q = (Get tid q \<noteq> None)"

definition Push :: "Task \<Rightarrow> schedulePolicy \<Rightarrow> schedulePolicy" where
  "Push task q = (if Exist (taskID task) q then q else q @ [task])"

definition Remove :: "int64 \<Rightarrow> schedulePolicy \<Rightarrow> schedulePolicy" where
  "Remove tid q = filter (\<lambda>t. taskID t \<noteq> tid) q"

definition TaskCount :: "schedulePolicy \<Rightarrow> nat" where
  "TaskCount q = length q"

definition Pop :: "(schedulePolicy \<Rightarrow> nat) \<Rightarrow> schedulePolicy \<Rightarrow> Task option \<times> schedulePolicy" where
  "Pop sel q =
     (if q = [] then (None, q)
      else let i = (if sel q < length q then sel q else 0)
           in (Some (q ! i), take i q @ drop (Suc i) q))"

text \<open>
  The running map \<^verbatim>\<open>typeutil.ConcurrentMap[UniqueID, Task]\<close> is an association list:
  \<^verbatim>\<open>Insert\<close> is \<open>AList.update\<close>, \<^verbatim>\<open>Get\<close> is \<open>map_of\<close>, \<^verbatim>\<open>Remove\<close> is \<open>AList.delete\<close>,
  \<^verbatim>\<open>Values\<close> lists the entries. The map holds pointers to tasks: what a step changes in
  a task that the map holds is seen through its entry (\<open>store_task\<close>).
\<close>

type_synonym runningMap = "(int64 \<times> Task) list"

definition store_task :: "int64 \<Rightarrow> Task \<Rightarrow> runningMap \<Rightarrow> runningMap" where
  "store_task k task r = AList.map_entry k (\<lambda>_. task) r"

record taskScheduler =
  pendingTasks :: schedulePolicy
  runningTasks :: runningMap

text \<open>\<^verbatim>\<open>exist\<close>: the task is tracked, in the queue or in the running map.\<close>

definition exist :: "taskScheduler \<Rightarrow> int64 \<Rightarrow> bool" where
  "exist s tid = (if Exist tid (pendingTasks s) then True else map_of (runningTasks s) tid \<noteq> None)"

text \<open>\<^verbatim>\<open>enqueue\<close>; \<open>now\<close> is the reading of \<^verbatim>\<open>time.Now()\<close>.\<close>

definition enqueue :: "int \<Rightarrow> Task \<Rightarrow> taskScheduler \<Rightarrow> taskScheduler" where
  "enqueue now task s =
     (case map_of (runningTasks s) (taskID task) of
        None \<Rightarrow> s\<lparr>pendingTasks := Push (task\<lparr>queueTime := now\<rparr>) (pendingTasks s)\<rparr>
      | Some _ \<Rightarrow> s)"

definition AbortTask :: "int64 \<Rightarrow> taskScheduler \<Rightarrow> taskScheduler" where
  "AbortTask tid s =
     (case Get tid (pendingTasks s) of
        Some task \<Rightarrow>
          s\<lparr>runningTasks := AList.update tid (SetState JobStateFailed ''canceled'' task) (runningTasks s),
            pendingTasks := Remove tid (pendingTasks s)\<rparr>
      | None \<Rightarrow>
          (case map_of (runningTasks s) tid of
             Some runningTask \<Rightarrow>
               s\<lparr>runningTasks :=
                    AList.update tid (SetState JobStateFailed ''canceled'' runningTask) (runningTasks s)\<rparr>
           | None \<Rightarrow> s))"

text \<open>
  The collaborators of the scheduler that are not among the sources: the per-kind task
  hooks, the worker registry and the clock. Each hook is a function of the task it is
  called on; a hook that can change the task returns the task as it leaves it. A
  \<open>bool\<close> is the hook's own result (\<open>True\<close> for a \<^verbatim>\<open>nil\<close> error where the source returns
  an error). \<open>GetClientByID\<close> tells whether the registry still knows the node.
\<close>

record hooks =
  PreCheck :: "Task \<Rightarrow> bool \<times> Task"
  GetClientByID :: "int64 \<Rightarrow> bool"
  UpdateVersion :: "int64 \<Rightarrow> Task \<Rightarrow> bool \<times> Task"
  AssignTask :: "Task \<Rightarrow> bool \<times> Task"
  UpdateMetaBuildingState :: "Task \<Rightarrow> bool"
  DropTaskMeta :: "Task \<Rightarrow> bool"
  SetJobInfo :: "Task \<Rightarrow> bool"
  DropTaskOnWorker :: "Task \<Rightarrow> bool"
  QueryResult :: "Task \<Rightarrow> Task"
  ResetTask :: "Task \<Rightarrow> Task"
  Now :: int

definition processNone :: "hooks \<Rightarrow> Task \<Rightarrow> bool" where
  "processNone h task = DropTaskMeta h task"

definition processInit :: "hooks \<Rightarrow> Task \<Rightarrow> int64 \<Rightarrow> bool \<times> Task" where
  "processInit h task node =
     (case PreCheck h task of (checkPass, t1) \<Rightarrow>
        if \<not> checkPass then (True, t1)
        else if \<not> GetClientByID h node then (False, t1)
        else (case UpdateVersion h node t1 of (versionOk, t2) \<Rightarrow>
          if \<not> versionOk then (False, t2)
          else (case AssignTask h t2 of (success, t3) \<Rightarrow>
            if \<not> success then (False, t3)
            else if \<not> UpdateMetaBuildingState h t3
              then (False, SetState JobStateRetry ''update meta building state failed'' t3)
              else (True, t3\<lparr>startTime := Now h\<rparr>))))"

definition process :: "hooks \<Rightarrow> Task \<Rightarrow> int64 \<Rightarrow> bool \<times> Task" where
  "process h task node =
     (case taskState task of
        JobStateNone \<Rightarrow> (processNone h task, task)
      | JobStateInit \<Rightarrow> processInit h task node
      | _ \<Rightarrow> (True, task))"

text \<open>
  The loop of \<^verbatim>\<open>run\<close>: while the snapshot has a positive entry and the queue gives a task,
  pick a node for it. \<open>ord i\<close> is the map iteration order of the \<open>i\<close>-th pass through the
  loop. The result lists the picks in order, each with the task, the node id that
  \<open>pickNode\<close> returned and the snapshot as it was before the pick, then the queue and
  the snapshot that the loop leaves.
\<close>

type_synonym pick = "Task \<times> int64 \<times> workerSlots"

function run_loop ::
  "(schedulePolicy \<Rightarrow> nat) \<Rightarrow> (nat \<Rightarrow> int64 list) \<Rightarrow> nat \<Rightarrow> schedulePolicy \<Rightarrow> workerSlots
     \<Rightarrow> pick list \<times> schedulePolicy \<times> workerSlots" where
  "run_loop sel ord i q ws =
     (if \<not> hasAvailableSlots (ord i) ws then ([], q, ws)
      else (case Pop sel q of
              (None, _) \<Rightarrow> ([], q, ws)
            | (Some task, q') \<Rightarrow>
                (case pickNode (ord i) ws (taskSlot task) of (node, ws') \<Rightarrow>
                   (case run_loop sel ord (Suc i) q' ws' of (picks, qf, wsf) \<Rightarrow>
                      ((task, node, ws) # picks, qf, wsf)))))"
  by pat_completeness auto
termination
  by (relation "measure (\<lambda>(sel, ord, i, q, ws). length q)")
    (auto simp: Pop_def Let_def split: if_splits)

text \<open>
  The goroutine that \<^verbatim>\<open>run\<close> starts for a popped task and its node: process the task
  when a node was found, then put it back into the queue or into the running map
  according to its state.
\<close>

definition dispatch :: "hooks \<Rightarrow> Task \<times> int64 \<Rightarrow> taskScheduler \<Rightarrow> taskScheduler" where
  "dispatch h d s =
     (case d of (task, node) \<Rightarrow>
        let t1 = (if node \<noteq> - 1 then snd (process h task node) else task) in
        (case taskState t1 of
           JobStateNone \<Rightarrow>
             if \<not> processNone h t1 then s\<lparr>pendingTasks := Push t1 (pendingTasks s)\<rparr> else s
         | JobStateInit \<Rightarrow> s\<lparr>pendingTasks := Push t1 (pendingTasks s)\<rparr>
         | _ \<Rightarrow> s\<lparr>runningTasks := AList.update (taskID t1) t1 (runningTasks s)\<rparr>))"

text \<open>
  \<^verbatim>\<open>run\<close>, one dispatch pass. \<open>workerSlots\<close> is the snapshot that \<^verbatim>\<open>QuerySlots\<close> returns.
  The goroutines are run one after the other when the loop has ended, in the order in
  which the loop started them; \<^verbatim>\<open>wg.Wait()\<close> returns when the last has finished.
\<close>

definition run ::
  "hooks \<Rightarrow> (schedulePolicy \<Rightarrow> nat) \<Rightarrow> (nat \<Rightarrow> int64 list) \<Rightarrow> workerSlots \<Rightarrow> taskScheduler
     \<Rightarrow> taskScheduler" where
  "run h sel ord workerSlots s =
     (if TaskCount (pendingTasks s) = 0 then s
      else (case run_loop sel ord 0 (pendingTasks s) workerSlots of (picks, qf, wsf) \<Rightarrow>
              fold (dispatch h) (map (\<lambda>(task, node, ws). (task, node)) picks)
                (s\<lparr>pendingTasks := qf\<rparr>)))"

subsection \<open>The polling loop\<close>

text \<open>
  The three handlers return the flag of the source and the task as they leave it;
  \<open>processRetry\<close> also returns the queue, onto which it pushes the task.
\<close>

definition processFinished :: "hooks \<Rightarrow> Task \<Rightarrow> bool \<times> Task" where
  "processFinished h task =
     (if \<not> SetJobInfo h task then (False, task)
      else let t1 = task\<lparr>endTime := Now h\<rparr> in
        if GetClientByID h (nodeID t1) \<and> \<not> DropTaskOnWorker h t1 then (False, t1)
        else (True, t1))"

definition processRetry :: "hooks \<Rightarrow> Task \<Rightarrow> schedulePolicy \<Rightarrow> bool \<times> Task \<times> schedulePolicy" where
  "processRetry h task q =
     (if GetClientByID h (nodeID task) \<and> \<not> DropTaskOnWorker h task then (False, task, q)
      else let t1 = ResetTask h (SetState JobStateInit [] task) in (True, t1, Push t1 q))"

definition processInProgress :: "hooks \<Rightarrow> Task \<Rightarrow> bool \<times> Task" where
  "processInProgress h task =
     (if GetClientByID h (nodeID task) then
        let t1 = QueryResult h task in
        if taskState t1 = JobStateFinished \<or> taskState t1 = JobStateFailed
          then processFinished h (ResetTask h t1)
          else (False, t1)
      else (False, SetState JobStateRetry ''node does not exist'' task))"

definition checkProcessingTask ::
  "hooks \<Rightarrow> Task \<Rightarrow> schedulePolicy \<Rightarrow> bool \<times> Task \<times> schedulePolicy" where
  "checkProcessingTask h task q =
     (case taskState task of
        JobStateInProgress \<Rightarrow> (case processInProgress h task of (suc, t1) \<Rightarrow> (suc, t1, q))
      | JobStateRetry \<Rightarrow> processRetry h task q
      | JobStateFinished \<Rightarrow> (case processFinished h task of (suc, t1) \<Rightarrow> (suc, t1, q))
      | JobStateFailed \<Rightarrow> (case processFinished h task of (suc, t1) \<Rightarrow> (suc, t1, q))
      | _ \<Rightarrow> (False, task, q))"

text \<open>
  The goroutine that \<^verbatim>\<open>checkProcessingTasks\<close> starts for one entry of the running map:
  check the task and, when the check succeeds, remove the task's id from the map.
\<close>

definition poll_task :: "hooks \<Rightarrow> int64 \<times> Task \<Rightarrow> taskScheduler \<Rightarrow> taskScheduler" where
  "poll_task h entry s =
     (case entry of (k, task) \<Rightarrow>
        (case checkProcessingTask h task (pendingTasks s) of (suc, t1, q1) \<Rightarrow>
           let r1 = store_task k t1 (runningTasks s) in
           s\<lparr>pendingTasks := q1,
             runningTasks := (if suc then AList.delete (taskID t1) r1 else r1)\<rparr>))"

definition checkProcessingTasks :: "hooks \<Rightarrow> taskScheduler \<Rightarrow> taskScheduler" where
  "checkProcessingTasks h s =
     (if length (runningTasks s) \<le> 0 then s
      else fold (poll_task h) (runningTasks s) s)"

subsection \<open>Histories of scheduler operations\<close>

datatype sched_op =
  Enqueue int Task
  | Abort int64
  | Run hooks "schedulePolicy \<Rightarrow> nat" "nat \<Rightarrow> int64 list" workerSlots
  | Poll hooks

fun apply_op :: "sched_op \<Rightarrow> taskScheduler \<Rightarrow> taskScheduler" where
  "apply_op (Enqueue now task) s = enqueue now task s"
| "apply_op (Abort tid) s = AbortTask tid s"
| "apply_op (Run h sel ord ws) s = run h sel ord ws s"
| "apply_op (Poll h) s = checkProcessingTasks h s"

text \<open>No hook changes the id of the task it is called on.\<close>

definition hooks_keep_id :: "hooks \<Rightarrow> bool" where
  "hooks_keep_id h =
     (\<forall>task node.
        taskID (snd (PreCheck h task)) = taskID task \<and>
        taskID (snd (UpdateVersion h node task)) = taskID task \<and>
        taskID (snd (AssignTask h task)) = taskID task \<and>
        taskID (QueryResult h task) = taskID task \<and>
        taskID (ResetTask h task) = taskID task)"

fun op_keeps_id :: "sched_op \<Rightarrow> bool" where
  "op_keeps_id (Run h sel ord ws) = hooks_keep_id h"
| "op_keeps_id (Poll h) = hooks_keep_id h"
| "op_keeps_id _ = True"

text \<open>
  The queue and the running map share no task id, and the queue holds each id once.
\<close>

definition sched_inv :: "taskScheduler \<Rightarrow> bool" where
  "sched_inv s =
     (distinct (map taskID (pendingTasks s)) \<and>
      (\<forall>task \<in> set (pendingTasks s). map_of (runningTasks s) (taskID task) = None))"

subsection \<open>What a dispatch pass assigns to a node\<close>

text \<open>
  A pick is a fallback when the cost of the task exceeded the slots that the picked
  node had left.
\<close>

definition is_fallback :: "pick \<Rightarrow> bool" where
  "is_fallback p =
     (case p of (task, node, ws) \<Rightarrow>
        (case ws node of None \<Rightarrow> False | Some avail \<Rightarrow> sint avail < sint (taskSlot task)))"

definition regular_cost :: "int64 \<Rightarrow> pick list \<Rightarrow> int" where
  "regular_cost n picks =
     (\<Sum>p \<leftarrow> picks. case p of (task, node, ws) \<Rightarrow>
        if node = n \<and> \<not> is_fallback p then sint (taskSlot task) else 0)"

definition fallback_count :: "int64 \<Rightarrow> pick list \<Rightarrow> nat" where
  "fallback_count n picks =
     length (filter (\<lambda>p. case p of (task, node, ws) \<Rightarrow> node = n \<and> is_fallback p) picks)"

section \<open>Channel manager: assignment of physical channels\<close>

datatype PChannelMetaState =
  PCHANNEL_META_STATE_UNINITIALIZED | PCHANNEL_META_STATE_ASSIGNING
  | PCHANNEL_META_STATE_ASSIGNED | PCHANNEL_META_STATE_UNAVAILABLE

datatype AccessMode = AccessMode_RO | AccessMode_RW

record PChannelInfo =
  Name :: string
  Term :: int64
  AccessMode :: AccessMode

record StreamingNodeInfo =
  ServerID :: int64
  Address :: string

record PChannelAssignmentLog =
  logTerm :: int64
  logNode :: "StreamingNodeInfo option"
  logAccessMode :: AccessMode

text \<open>\<open>Node\<close> is a pointer in the source: \<open>None\<close> is \<^verbatim>\<open>nil\<close>, a channel never assigned.\<close>

record PChannelMeta =
  Channel :: PChannelInfo
  Node :: "StreamingNodeInfo option"
  State :: PChannelMetaState
  Histories :: "PChannelAssignmentLog list"
  LastAssignTimestampSeconds :: nat

text \<open>
  Modelled from the spec: \<^verbatim>\<open>CurrentServerID\<close> is not among the sources; it is the id of the
  channel's "current assignee node". For a channel without a node it is taken to be
  \<open>-1\<close>, the value the source's \<^verbatim>\<open>FindPChannelNodeLocation\<close> returns for a channel that is
  not assigned.
\<close>

definition CurrentServerID :: "PChannelMeta \<Rightarrow> int64" where
  "CurrentServerID m = (case Node m of None \<Rightarrow> - 1 | Some n \<Rightarrow> ServerID n)"

text \<open>
  \<^verbatim>\<open>TryAssignToServerID\<close> works on a copy of the record: the result is the flag and the
  copy as the call leaves it.
\<close>

definition TryAssignToServerID ::
  "AccessMode \<Rightarrow> StreamingNodeInfo \<Rightarrow> PChannelMeta \<Rightarrow> bool \<times> PChannelMeta" where
  "TryAssignToServerID accessMode streamingNode m =
     (if AccessMode (Channel m) = accessMode \<and> CurrentServerID m = ServerID streamingNode
         \<and> State m = PCHANNEL_META_STATE_ASSIGNED
      then (False, m)
      else
        let histories =
              (if State m \<noteq> PCHANNEL_META_STATE_UNINITIALIZED
               then Histories m @
                 [\<lparr>logTerm = Term (Channel m), logNode = Node m,
                   logAccessMode = AccessMode (Channel m)\<rparr>]
               else Histories m)
        in (True,
            m\<lparr>Histories := histories,
              Channel := (Channel m)\<lparr>AccessMode := accessMode, Term := Term (Channel m) + 1\<rparr>,
              Node := Some streamingNode,
              State := PCHANNEL_META_STATE_ASSIGNING\<rparr>))"

text \<open>\<^verbatim>\<open>AssignToServerDone\<close>; \<open>now\<close> is \<^verbatim>\<open>uint64(time.Now().Unix())\<close>.\<close>

definition AssignToServerDone :: "nat \<Rightarrow> PChannelMeta \<Rightarrow> PChannelMeta" where
  "AssignToServerDone now m =
     (if State m = PCHANNEL_META_STATE_ASSIGNING
      then m\<lparr>Histories := [], State := PCHANNEL_META_STATE_ASSIGNED,
             LastAssignTimestampSeconds := now\<rparr>
      else m)"

text \<open>
  The manager: the channel map and the local counter of the version pair, with the list
  of the records written to the catalog so far (\<open>persisted\<close>) to tell what a call
  persists.
\<close>

record ChannelManager =
  channels :: "string \<rightharpoonup> PChannelMeta"
  versionGlobal :: int64
  versionLocal :: int64
  persisted :: "PChannelMeta list"

record PChannelInfoAssigned =
  assignedChannel :: PChannelInfo
  assignedNode :: StreamingNodeInfo

datatype assign_error = ErrChannelNotExist | PersistFailed

text \<open>
  The loop of \<^verbatim>\<open>AssignPChannels\<close> over the updates, in the order in which the map of
  updates is iterated. \<open>persistAssignment\<close> tells whether the catalog write of a record
  succeeds. \<open>Some e\<close> is the early \<^verbatim>\<open>return err\<close>.
\<close>

fun assign_loop ::
  "(PChannelMeta \<Rightarrow> bool) \<Rightarrow> (string \<times> PChannelInfoAssigned) list \<Rightarrow> ChannelManager
     \<Rightarrow> assign_error option \<times> ChannelManager" where
  "assign_loop persistAssignment [] cm = (None, cm)"
| "assign_loop persistAssignment ((cid, update) # rest) cm =
     (case channels cm cid of
        None \<Rightarrow> (Some ErrChannelNotExist, cm)
      | Some channel \<Rightarrow>
          (case TryAssignToServerID (AccessMode (assignedChannel update)) (assignedNode update)
                  channel of
             (False, _) \<Rightarrow> assign_loop persistAssignment rest cm
           | (True, mutableChannel) \<Rightarrow>
               let cm1 = cm\<lparr>channels := (channels cm)(cid \<mapsto> mutableChannel)\<rparr> in
               if persistAssignment mutableChannel
               then assign_loop persistAssignment rest
                      (cm1\<lparr>persisted := persisted cm1 @ [mutableChannel]\<rparr>)
               else (Some PersistFailed, cm1)))"

definition AssignPChannels ::
  "(PChannelMeta \<Rightarrow> bool) \<Rightarrow> (string \<times> PChannelInfoAssigned) list \<Rightarrow> ChannelManager
     \<Rightarrow> assign_error option \<times> ChannelManager" where
  "AssignPChannels persistAssignment updates cm =
     (case assign_loop persistAssignment updates cm of
        (Some err, cm1) \<Rightarrow> (Some err, cm1)
      | (None, cm1) \<Rightarrow> (None, cm1\<lparr>versionLocal := versionLocal cm1 + 1\<rparr>))"

text \<open>
  Modelled from the spec: the manager's \<^verbatim>\<open>confirm(channel)\<close> is not among the sources;
  "called ... when the target node has acknowledged ownership: clears history, state to
  assigned, timestamps", which is \<open>AssignToServerDone\<close> on the channel's record.
\<close>

definition confirm :: "nat \<Rightarrow> string \<Rightarrow> ChannelManager \<Rightarrow> ChannelManager" where
  "confirm now cid cm =
     (case channels cm cid of
        None \<Rightarrow> cm
      | Some channel \<Rightarrow> cm\<lparr>channels := (channels cm)(cid \<mapsto> AssignToServerDone now channel)\<rparr>)"

subsection \<open>Histories of one channel\<close>

datatype channel_op = TryAssign AccessMode StreamingNodeInfo | AssignDone nat

fun apply_channel_op :: "channel_op \<Rightarrow> PChannelMeta \<Rightarrow> PChannelMeta" where
  "apply_channel_op (TryAssign accessMode streamingNode) m =
     snd (TryAssignToServerID accessMode streamingNode m)"
| "apply_channel_op (AssignDone now) m = AssignToServerDone now m"

text \<open>The term of the channel is above the term of every entry of its history.\<close>

definition term_above_history :: "PChannelMeta \<Rightarrow> bool" where
  "term_above_history m =
     (\<forall>entry \<in> set (Histories m). sint (logTerm entry) < sint (Term (Channel m)))"

subsection \<open>A batch that is already in place\<close>

text \<open>The record has the access mode and the server of the update.\<close>

definition matches_update :: "PChannelInfoAssigned \<Rightarrow> PChannelMeta \<Rightarrow> bool" where
  "matches_update update m =
     (AccessMode (Channel m) = AccessMode (assignedChannel update) \<and>
      CurrentServerID m = ServerID (assignedNode update))"

text \<open>Every channel of the batch is in state assigned with the batch's mode and node.\<close>

definition already_assigned ::
  "ChannelManager \<Rightarrow> (string \<times> PChannelInfoAssigned) list \<Rightarrow> bool" where
  "already_assigned cm updates =
     (\<forall>(cid, update) \<in> set updates.
        case channels cm cid of
          None \<Rightarrow> False
        | Some m \<Rightarrow> matches_update update m \<and> State m = PCHANNEL_META_STATE_ASSIGNED)"

text \<open>The term of a channel of the manager, if the channel exists.\<close>

definition term_of :: "ChannelManager \<Rightarrow> string \<Rightarrow> int64 option" where
  "term_of cm cid = map_option (\<lambda>m. Term (Channel m)) (channels cm cid)"

section \<open>Garbage collector (garbage\_collector.go)\<close>

subsection \<open>Time\<close>

text \<open>
  A \<^verbatim>\<open>time.Time\<close> is an instant in nanoseconds on an integer time line whose origin is
  the zero \<^verbatim>\<open>Time\<close>; a \<^verbatim>\<open>time.Duration\<close> is a signed 64-bit count of nanoseconds.
  \<^verbatim>\<open>time.Since\<close> saturates at the largest and the smallest duration.
\<close>

definition zero_time :: int where
  "zero_time = 0"

definition time_Since :: "int \<Rightarrow> int \<Rightarrow> int" where
  "time_Since now t = max (- (2 ^ 63)) (min (2 ^ 63 - 1) (now - t))"



subsection \<open>Pause and resume\<close>

datatype GcCommand = GcCommand_None | GcCommand_Pause | GcCommand_Resume

record gcCmd =
  cmdType :: GcCommand
  duration :: int

record garbageCollector =
  enabled :: bool
  pauseUntil :: int

text \<open>
  The \<^verbatim>\<open>case cmd := <-gc.cmdCh\<close> branch of \<^verbatim>\<open>work\<close>; \<open>now\<close> is the reading of
  \<^verbatim>\<open>time.Now()\<close>.
\<close>

definition work_cmd :: "int \<Rightarrow> gcCmd \<Rightarrow> garbageCollector \<Rightarrow> garbageCollector" where
  "work_cmd now cmd gc =
     (case cmdType cmd of
        GcCommand_Pause \<Rightarrow>
          let newPauseUntil = now + duration cmd in
          if pauseUntil gc < newPauseUntil then gc\<lparr>pauseUntil := newPauseUntil\<rparr> else gc
      | GcCommand_Resume \<Rightarrow> gc\<lparr>pauseUntil := zero_time\<rparr>
      | GcCommand_None \<Rightarrow> gc)"

text \<open>
  \<^verbatim>\<open>Pause\<close> and \<^verbatim>\<open>Resume\<close> with a context that is not cancelled: the command reaches
  the loop, which handles it at time \<open>now\<close>. A collector that is not enabled receives no
  command.
\<close>

definition Pause :: "int \<Rightarrow> int \<Rightarrow> garbageCollector \<Rightarrow> garbageCollector" where
  "Pause now pauseDuration gc =
     (if \<not> enabled gc then gc
      else work_cmd now \<lparr>cmdType = GcCommand_Pause, duration = pauseDuration\<rparr> gc)"

definition Resume :: "int \<Rightarrow> garbageCollector \<Rightarrow> garbageCollector" where
  "Resume now gc =
     (if \<not> enabled gc then gc
      else work_cmd now \<lparr>cmdType = GcCommand_Resume, duration = 0\<rparr> gc)"

text \<open>The test of the ticker branch: the tick is skipped while the pause lasts.\<close>

definition paused :: "int \<Rightarrow> garbageCollector \<Rightarrow> bool" where
  "paused now gc = (now < pauseUntil gc)"

subsection \<open>Segments\<close>

datatype SegmentState =
  SegmentStateNone | NotExist | Growing | Sealed | Flushed | Flushing | Dropped | Importing

text \<open>
  The fields of \<^verbatim>\<open>SegmentInfo\<close> that the collector reads. A \<^verbatim>\<open>FieldBinlog\<close> is the list
  of the log paths of its binlogs. \<open>DroppedAt\<close> and \<open>DmlTimestamp\<close>
  (\<^verbatim>\<open>GetDmlPosition().GetTimestamp()\<close>) are unsigned 64-bit values.
\<close>

type_synonym FieldBinlog = "string list"

record SegmentInfo =
  ID :: int64
  segState :: SegmentState
  InsertChannel :: string
  Compacted :: bool
  CompactionFrom :: "int64 list"
  DroppedAt :: nat
  DmlTimestamp :: nat
  Binlogs :: "FieldBinlog list"
  Statslogs :: "FieldBinlog list"
  Deltalogs :: "FieldBinlog list"


subsection \<open>Collection of dropped segments\<close>






















subsection \<open>Scan of the log prefixes\<close>

text \<open>
  An entry of the listing of a prefix. \<open>Err\<close> tells whether the entry carries an error.
\<close>

record objectPathHolder =
  Path :: string
  ModTime :: int
  Err :: bool

text \<open>\<^verbatim>\<open>strings.Contains\<close>.\<close>

fun strings_Contains :: "string \<Rightarrow> string \<Rightarrow> bool" where
  "strings_Contains [] substr = (substr = [])"
| "strings_Contains (c # s) substr =
     (take (length substr) (c # s) = substr \<or> strings_Contains s substr)"

text \<open>
  The collaborators of \<^verbatim>\<open>scan\<close> that are not among the sources: the root path, the three
  path constants of package \<^verbatim>\<open>common\<close>, \<^verbatim>\<open>path.Join\<close>, the listing of a prefix (each entry
  with the reading of the clock at the time the loop looks at it),
  \<^verbatim>\<open>storage.ParseSegmentIDByBinlog\<close> (\<open>None\<close> for an error) and the outcome of \<^verbatim>\<open>Remove\<close>
  (\<open>True\<close> for a \<^verbatim>\<open>nil\<close> error).
\<close>

record scan_env =
  RootPath :: string
  SegmentInsertLogPath :: string
  SegmentStatslogPath :: string
  SegmentDeltaLogPath :: string
  path_Join :: "string \<Rightarrow> string \<Rightarrow> string"
  ListWithPrefix :: "string \<Rightarrow> (int \<times> objectPathHolder) list"
  ParseSegmentIDByBinlog :: "string \<Rightarrow> string \<Rightarrow> int64 option"
  scan_Remove :: "string \<Rightarrow> bool"
  missingTolerance :: int

definition prefixes :: "scan_env \<Rightarrow> string list" where
  "prefixes env =
     [path_Join env (RootPath env) (SegmentInsertLogPath env),
      path_Join env (RootPath env) (SegmentStatslogPath env),
      path_Join env (RootPath env) (SegmentDeltaLogPath env)]"

text \<open>The filter that \<^verbatim>\<open>checker\<close> gives to \<^verbatim>\<open>GetSegments\<close>.\<close>

definition log_referenced :: "scan_env \<Rightarrow> string \<Rightarrow> string \<Rightarrow> SegmentInfo \<Rightarrow> bool" where
  "log_referenced env prefix objectPath info =
     (if strings_Contains prefix (SegmentInsertLogPath env) then True
      else if strings_Contains prefix (SegmentStatslogPath env)
        then objectPath \<in> set (concat (Statslogs info))
      else if strings_Contains prefix (SegmentDeltaLogPath env)
        then objectPath \<in> set (concat (Deltalogs info))
      else True)"

text \<open>
  Modelled from the spec: \<^verbatim>\<open>meta.GetSegments(ids, filter)\<close> is not among the sources; it
  returns the ids among \<open>ids\<close> whose segment is "found in metadata" and passes the filter.
\<close>

definition GetSegments ::
  "SegmentInfo list \<Rightarrow> int64 list \<Rightarrow> (SegmentInfo \<Rightarrow> bool) \<Rightarrow> int64 list" where
  "GetSegments segs ids filterFunc =
     filter (\<lambda>segID. case find (\<lambda>seg. ID seg = segID) segs of
                        None \<Rightarrow> False | Some info \<Rightarrow> filterFunc info) ids"

definition checker :: "scan_env \<Rightarrow> SegmentInfo list \<Rightarrow> int64 \<Rightarrow> string \<Rightarrow> string \<Rightarrow> bool" where
  "checker env segs segmentID objectPath prefix =
     (length (GetSegments segs [segmentID] (log_referenced env prefix objectPath)) = 1)"

record scan_counts =
  total :: nat
  valid :: nat
  missing :: nat
  removedKeys :: "string list"
  removedObjects :: "string list"

text \<open>
  The body of the loop over the listing of one prefix. \<open>removedKeys\<close> are the keys on
  which \<^verbatim>\<open>Remove\<close> was called, \<open>removedObjects\<close> those whose removal succeeded.
\<close>

definition scan_object ::
  "scan_env \<Rightarrow> SegmentInfo list \<Rightarrow> string \<Rightarrow> int \<times> objectPathHolder \<Rightarrow> scan_counts \<Rightarrow> scan_counts" where
  "scan_object env segs prefix entry acc =
     (case entry of (now, objectPathHolder) \<Rightarrow>
        if Err objectPathHolder then acc
        else if time_Since now (ModTime objectPathHolder) \<le> missingTolerance env then acc
        else
          let acc1 = acc\<lparr>total := total acc + 1\<rparr>;
              infoKey = Path objectPathHolder
          in (case ParseSegmentIDByBinlog env (RootPath env) infoKey of
                None \<Rightarrow> acc1\<lparr>missing := missing acc1 + 1\<rparr>
              | Some segmentID \<Rightarrow>
                  if checker env segs segmentID infoKey prefix
                  then acc1\<lparr>valid := valid acc1 + 1\<rparr>
                  else
                    let acc2 = acc1\<lparr>removedKeys := removedKeys acc1 @ [infoKey]\<rparr> in
                    if scan_Remove env infoKey
                    then acc2\<lparr>removedObjects := removedObjects acc2 @ [infoKey]\<rparr>
                    else acc2\<lparr>missing := missing acc2 + 1\<rparr>))"

definition scan_prefix :: "scan_env \<Rightarrow> SegmentInfo list \<Rightarrow> string \<Rightarrow> scan_counts \<Rightarrow> scan_counts" where
  "scan_prefix env segs prefix acc = fold (scan_object env segs prefix) (ListWithPrefix env prefix) acc"

definition scan :: "scan_env \<Rightarrow> SegmentInfo list \<Rightarrow> scan_counts" where
  "scan env segs =
     fold (scan_prefix env segs) (prefixes env)
       \<lparr>total = 0, valid = 0, missing = 0, removedKeys = [], removedObjects = []\<rparr>"

text \<open>
  An entry of a listing that \<^verbatim>\<open>scan\<close> may remove: it carries no error, it is older than
  the tolerance, its key parses to a segment id, and the segment is not in the metadata
  or does not reference the key in the logs that the prefix stands for.
\<close>

definition removable ::
  "scan_env \<Rightarrow> SegmentInfo list \<Rightarrow> string \<Rightarrow> int \<times> objectPathHolder \<Rightarrow> bool" where
  "removable env segs prefix entry =
     (case entry of (now, objectPathHolder) \<Rightarrow>
        \<not> Err objectPathHolder \<and>
        missingTolerance env < time_Since now (ModTime objectPathHolder) \<and>
        (case ParseSegmentIDByBinlog env (RootPath env) (Path objectPathHolder) of
           None \<Rightarrow> False
         | Some segmentID \<Rightarrow>
             (case find (\<lambda>seg. ID seg = segmentID) segs of
                None \<Rightarrow> True
              | Some info \<Rightarrow> \<not> log_referenced env prefix (Path objectPathHolder) info)))"

section \<open>Sample data for the concrete instances\<close>

definition sample_task :: "int64 \<Rightarrow> int64 \<Rightarrow> int64 \<Rightarrow> JobState \<Rightarrow> Task" where
  "sample_task tid node slot st =
     \<lparr>taskID = tid, nodeID = node, taskSlot = slot, taskState = st, failReason = [],
      queueTime = 0, startTime = 0, endTime = 0\<rparr>"

definition sample_queue :: schedulePolicy where
  "sample_queue =
     [sample_task 11 (- 1) 3 JobStateInit, sample_task 12 (- 1) 5 JobStateInit,
      sample_task 13 (- 1) 1 JobStateInit]"

definition sample_slots :: workerSlots where
  "sample_slots = [1 \<mapsto> 4, 2 \<mapsto> 2]"

definition sample_hooks :: "bool \<Rightarrow> bool \<Rightarrow> hooks" where
  "sample_hooks known dropped =
     \<lparr>PreCheck = (\<lambda>task. (True, task)),
      GetClientByID = (\<lambda>node. known),
      UpdateVersion = (\<lambda>node task. (True, task\<lparr>nodeID := node\<rparr>)),
      AssignTask = (\<lambda>task. (True, SetState JobStateInProgress [] task)),
      UpdateMetaBuildingState = (\<lambda>task. True),
      DropTaskMeta = (\<lambda>task. True),
      SetJobInfo = (\<lambda>task. True),
      DropTaskOnWorker = (\<lambda>task. dropped),
      QueryResult = (\<lambda>task. task),
      ResetTask = (\<lambda>task. task\<lparr>nodeID := 0\<rparr>),
      Now = 100\<rparr>"

definition sample_sched :: taskScheduler where
  "sample_sched = \<lparr>pendingTasks = sample_queue, runningTasks = []\<rparr>"

definition sample_ops :: "sched_op list" where
  "sample_ops =
     [Enqueue 1 (sample_task 21 (- 1) 2 JobStateInit),
      Run (sample_hooks True True) (\<lambda>q. 0) (\<lambda>i. [1, 2]) sample_slots,
      Abort 12,
      Poll (sample_hooks True True)]"

definition sample_retry :: Task where
  "sample_retry = sample_task 31 1 2 JobStateRetry"

definition sample_retry_sched :: taskScheduler where
  "sample_retry_sched = \<lparr>pendingTasks = [], runningTasks = [(31, sample_retry)]\<rparr>"

definition sample_node :: "int64 \<Rightarrow> StreamingNodeInfo" where
  "sample_node sid = \<lparr>ServerID = sid, Address = ''node''\<rparr>"

definition sample_channel :: PChannelMeta where
  "sample_channel =
     \<lparr>Channel = \<lparr>Name = ''c1'', Term = 0, AccessMode = AccessMode_RO\<rparr>, Node = None,
      State = PCHANNEL_META_STATE_UNINITIALIZED, Histories = [],
      LastAssignTimestampSeconds = 0\<rparr>"

definition sample_manager :: ChannelManager where
  "sample_manager =
     \<lparr>channels = [''c1'' \<mapsto> sample_channel], versionGlobal = 7, versionLocal = 0,
      persisted = []\<rparr>"

definition sample_updates :: "(string \<times> PChannelInfoAssigned) list" where
  "sample_updates =
     [(''c1'', \<lparr>assignedChannel = \<lparr>Name = ''c1'', Term = 0, AccessMode = AccessMode_RW\<rparr>,
               assignedNode = sample_node 1\<rparr>)]"

definition sample_persist :: "PChannelMeta \<Rightarrow> bool" where
  "sample_persist m = True"

definition sample_manager1 :: ChannelManager where
  "sample_manager1 = snd (AssignPChannels sample_persist sample_updates sample_manager)"

definition sample_manager2 :: ChannelManager where
  "sample_manager2 = snd (AssignPChannels sample_persist sample_updates sample_manager1)"

definition sample_channel_ops :: "channel_op list" where
  "sample_channel_ops =
     [TryAssign AccessMode_RW (sample_node 1), TryAssign AccessMode_RW (sample_node 2),
      TryAssign AccessMode_RO (sample_node 2)]"

definition sample_manager_confirmed :: ChannelManager where
  "sample_manager_confirmed = fold (confirm 9) (map fst sample_updates) sample_manager1"

definition sample_gc :: garbageCollector where
  "sample_gc = \<lparr>enabled = True, pauseUntil = 500\<rparr>"






definition sample_scan_env :: scan_env where
  "sample_scan_env =
     \<lparr>RootPath = ''files'', SegmentInsertLogPath = ''insert_log'',
      SegmentStatslogPath = ''stats_log'', SegmentDeltaLogPath = ''delta_log'',
      path_Join = (\<lambda>a b. a @ ''/'' @ b),
      ListWithPrefix =
        (\<lambda>prefix. if prefix = ''files/insert_log''
           then [(1000, \<lparr>Path = ''files/insert_log/old'', ModTime = 0, Err = False\<rparr>),
                 (1000, \<lparr>Path = ''files/insert_log/new'', ModTime = 950, Err = False\<rparr>)]
           else []),
      ParseSegmentIDByBinlog = (\<lambda>root infoKey. Some 77),
      scan_Remove = (\<lambda>infoKey. True),
      missingTolerance = 100\<rparr>"

section \<open>Facts about the slot scan\<close>

lemma sint_sub_no_wrap:
  fixes a c :: int64
  assumes "0 \<le> sint c" and "sint c \<le> sint a"
  shows "sint (a - c) = sint a - sint c"
proof -
  have "sint a < 2 ^ 63"
    using sint_lt [of a] by simp
  with assms have "- (2 ^ 63) \<le> sint a - sint c" and "sint a - sint c < 2 ^ 63"
    by simp_all
  then have "signed_take_bit 63 (sint a - sint c) = sint a - sint c"
    by (simp add: signed_take_bit_int_eq_self)
  then show ?thesis
    by (simp add: sint_word_ariths)
qed

lemma scan_Fits:
  "pickNode_scan ws c fb mx ks = Fits n a \<Longrightarrow>
     n \<in> set ks \<and> ws n = Some a \<and> sint c \<le> sint a"
  by (induction ks arbitrary: fb mx) (auto split: option.splits if_splits)

lemma scan_NoFit_none_fits:
  "pickNode_scan ws c fb mx ks = NoFit fb' mx' \<Longrightarrow>
     \<forall>k \<in> set ks. \<forall>a. ws k = Some a \<longrightarrow> sint a < sint c"
  by (induction ks arbitrary: fb mx) (auto split: option.splits if_splits)

lemma scan_fit_exists:
  "k \<in> set ks \<Longrightarrow> ws k = Some a \<Longrightarrow> sint c \<le> sint a \<Longrightarrow>
     \<exists>n b. pickNode_scan ws c fb mx ks = Fits n b"
proof (induction ks arbitrary: fb mx)
  case Nil
  then show ?case by simp
next
  case (Cons x xs)
  show ?case
  proof (cases "ws x")
    case None
    with Cons show ?thesis by auto
  next
    case (Some b)
    with Cons show ?thesis by (cases "sint c \<le> sint b") auto
  qed
qed

lemma scan_NoFit_max:
  "pickNode_scan ws c fb mx ks = NoFit fb' mx' \<Longrightarrow>
     sint mx \<le> sint mx' \<and>
     (\<forall>k \<in> set ks. \<forall>a. ws k = Some a \<longrightarrow> 0 < sint a \<longrightarrow> sint a \<le> sint mx') \<and>
     ((fb' = fb \<and> mx' = mx) \<or> (fb' \<in> set ks \<and> ws fb' = Some mx' \<and> 0 < sint mx'))"
proof (induction ks arbitrary: fb mx)
  case Nil
  then show ?case by simp
next
  case (Cons x xs)
  show ?case
  proof (cases "ws x")
    case None
    with Cons.prems have "pickNode_scan ws c fb mx xs = NoFit fb' mx'" by simp
    from Cons.IH [OF this] None show ?thesis by auto
  next
    case (Some b)
    from Cons.prems Some have nofit: "\<not> sint c \<le> sint b"
      by (auto split: if_splits)
    show ?thesis
    proof (cases "sint mx < sint b \<and> 0 < sint b")
      case True
      with Cons.prems Some nofit have "pickNode_scan ws c x b xs = NoFit fb' mx'" by simp
      from Cons.IH [OF this] True Some show ?thesis by auto
    next
      case False
      with Cons.prems Some nofit have "pickNode_scan ws c fb mx xs = NoFit fb' mx'" by simp
      from Cons.IH [OF this] False Some show ?thesis by auto
    qed
  qed
qed

section \<open>Claims about slot allocation\<close>

text \<open>
  C2. For a slot cost \<open>c > 0\<close> and a snapshot whose node ids are real ids (\<open>-1\<close> is the
  "no node" value and never a key): when some node has at least \<open>c\<close> available slots,
  \<open>pickNode\<close> returns a node with at least \<open>c\<close> and subtracts \<open>c\<close> from its entry (without
  wrap-around); when none fits but some node has a positive count, it returns a node
  holding the maximum count and sets its entry to 0; when no node has a positive count it
  returns \<open>-1\<close> and leaves the snapshot as it was.
\<close>

theorem pickNode_spec:
  assumes keys: "set order = dom ws"
    and sentinel: "- 1 \<notin> dom ws"
    and cost: "0 < sint c"
  shows "case pickNode order ws c of (n, ws') \<Rightarrow>
     ((\<exists>k a. ws k = Some a \<and> sint c \<le> sint a) \<longrightarrow>
        (\<exists>a. ws n = Some a \<and> sint c \<le> sint a \<and> ws' = ws(n \<mapsto> a - c)
           \<and> sint (a - c) = sint a - sint c)) \<and>
     (\<not> (\<exists>k a. ws k = Some a \<and> sint c \<le> sint a) \<and> (\<exists>k a. ws k = Some a \<and> 0 < sint a) \<longrightarrow>
        (\<exists>a. ws n = Some a \<and> 0 < sint a \<and> (\<forall>k b. ws k = Some b \<longrightarrow> sint b \<le> sint a)
           \<and> ws' = ws(n \<mapsto> 0))) \<and>
     (\<not> (\<exists>k a. ws k = Some a \<and> 0 < sint a) \<longrightarrow> n = - 1 \<and> ws' = ws)"
proof (cases "pickNode_scan ws c (- 1) (- 1) order")
  case (Fits n a)
  from scan_Fits [OF Fits] have a: "ws n = Some a" "sint c \<le> sint a"
    by blast+
  have sub: "sint (a - c) = sint a - sint c"
    using cost a(2) by (intro sint_sub_no_wrap) simp_all
  have pos: "0 < sint a"
    using cost a(2) by simp
  have res: "pickNode order ws c = (n, ws(n \<mapsto> a - c))"
    by (simp add: pickNode_def Fits a)
  show ?thesis
    unfolding res using a sub pos by auto
next
  case (NoFit fb mx)
  have none: "\<forall>k a. ws k = Some a \<longrightarrow> sint a < sint c"
  proof (intro allI impI)
    fix k a assume "ws k = Some a"
    then have "k \<in> set order" using keys by auto
    with scan_NoFit_none_fits [OF NoFit] \<open>ws k = Some a\<close> show "sint a < sint c"
      by blast
  qed
  then have nofit: "\<not> (\<exists>k a. ws k = Some a \<and> sint c \<le> sint a)"
    by (auto simp: not_le)
  from scan_NoFit_max [OF NoFit]
  have mx: "\<forall>k \<in> set order. \<forall>a. ws k = Some a \<longrightarrow> 0 < sint a \<longrightarrow> sint a \<le> sint mx"
    and alt: "(fb = - 1 \<and> mx = - 1) \<or> (fb \<in> set order \<and> ws fb = Some mx \<and> 0 < sint mx)"
    by blast+
  from alt show ?thesis
  proof
    assume init: "fb = - 1 \<and> mx = - 1"
    have nopos: "\<not> (\<exists>k a. ws k = Some a \<and> 0 < sint a)"
    proof
      assume "\<exists>k a. ws k = Some a \<and> 0 < sint a"
      then obtain k a where ka: "ws k = Some a" "0 < sint a" by blast
      then have "k \<in> set order" using keys by auto
      with mx ka have "sint a \<le> sint mx" by blast
      with init ka show False by simp
    qed
    have res: "pickNode order ws c = (- 1, ws)"
      by (simp add: pickNode_def NoFit init)
    show ?thesis
      unfolding res using nopos nofit by blast
  next
    assume fbk: "fb \<in> set order \<and> ws fb = Some mx \<and> 0 < sint mx"
    then have "fb \<in> dom ws" by auto
    with sentinel have "fb \<noteq> - 1" by auto
    then have res: "pickNode order ws c = (fb, ws(fb \<mapsto> 0))"
      by (simp add: pickNode_def NoFit)
    have top: "\<forall>k b. ws k = Some b \<longrightarrow> sint b \<le> sint mx"
    proof (intro allI impI)
      fix k b assume kb: "ws k = Some b"
      then have "k \<in> set order" using keys by auto
      show "sint b \<le> sint mx"
      proof (cases "0 < sint b")
        case True
        with mx \<open>k \<in> set order\<close> kb show ?thesis by blast
      next
        case False
        with fbk show ?thesis by simp
      qed
    qed
    show ?thesis
      unfolding res using fbk top nofit by auto
  qed
qed

theorem pickNode_spec_witness:
  "set [1, 2 :: int64] = dom [1 \<mapsto> 3, 2 \<mapsto> (8::int64)] \<and>
   (- 1 :: int64) \<notin> dom [1 \<mapsto> 3, 2 \<mapsto> (8::int64)] \<and>
   0 < sint (5::int64) \<and>
   pickNode [1, 2] [1 \<mapsto> 3, 2 \<mapsto> 8] 5 = (2, [1 \<mapsto> 3, 2 \<mapsto> 3])"
  using pickNode_spec [of "[1, 2]" "[1 \<mapsto> 3, 2 \<mapsto> 8]" 5]
  by (auto simp: pickNode_def)

section \<open>Facts about the dispatch loop\<close>

lemma pickNode_cases:
  assumes "pickNode order ws c = (m, ws')"
  shows "(m = - 1 \<and> ws' = ws) \<or>
         (\<exists>a. ws m = Some a \<and> sint c \<le> sint a \<and> ws' = ws(m \<mapsto> a - c)) \<or>
         (\<exists>a. ws m = Some a \<and> sint a < sint c \<and> 0 < sint a \<and> ws' = ws(m \<mapsto> 0))"
proof (cases "pickNode_scan ws c (- 1) (- 1) order")
  case (Fits n a)
  from scan_Fits [OF Fits] have "ws n = Some a" "sint c \<le> sint a" by blast+
  with assms Fits show ?thesis by (auto simp: pickNode_def)
next
  case (NoFit fb mx)
  show ?thesis
  proof (cases "fb = - 1")
    case True
    with assms NoFit show ?thesis by (simp add: pickNode_def)
  next
    case False
    with scan_NoFit_max [OF NoFit] have fb: "fb \<in> set order" "ws fb = Some mx" "0 < sint mx"
      by auto
    with scan_NoFit_none_fits [OF NoFit] have "sint mx < sint c" by blast
    with assms NoFit False fb show ?thesis by (auto simp: pickNode_def)
  qed
qed

lemma Pop_Some:
  assumes "Pop sel q = (Some task, q')"
  shows "\<exists>ys zs. q = ys @ task # zs \<and> q' = ys @ zs"
proof -
  from assms have ne: "q \<noteq> []" by (auto simp: Pop_def)
  define i where "i = (if sel q < length q then sel q else 0)"
  from ne have i: "i < length q" by (auto simp: i_def)
  from assms ne have "task = q ! i" "q' = take i q @ drop (Suc i) q"
    by (auto simp: Pop_def i_def Let_def)
  with id_take_nth_drop [OF i] show ?thesis by blast
qed

lemma run_loop_slots:
  assumes "run_loop sel ord i q ws = (picks, qf, wsf)"
    and "\<forall>task \<in> set q. 0 \<le> sint (taskSlot task)"
    and "ws n = Some a" and "0 \<le> sint a" and "n \<noteq> - 1"
  shows "regular_cost n picks \<le> sint a \<and>
         fallback_count n picks \<le> (if 0 < sint a then 1 else 0)"
  using assms
proof (induction sel ord i q ws arbitrary: picks qf wsf a rule: run_loop.induct)
  case (1 sel ord i q ws)
  show ?case
  proof (cases "hasAvailableSlots (ord i) ws")
    case False
    with "1.prems"(1) have "picks = []" by simp
    with "1.prems" show ?thesis by (simp add: regular_cost_def fallback_count_def)
  next
    case avail: True
    show ?thesis
    proof (cases "Pop sel q")
      case (Pair topt q')
      show ?thesis
      proof (cases topt)
        case None
        with "1.prems"(1) avail Pair have "picks = []" by simp
        with "1.prems" show ?thesis by (simp add: regular_cost_def fallback_count_def)
      next
        case (Some task)
        obtain m ws' where pk: "pickNode (ord i) ws (taskSlot task) = (m, ws')"
          by (cases "pickNode (ord i) ws (taskSlot task)")
        obtain ps qf' wsf' where rec: "run_loop sel ord (Suc i) q' ws' = (ps, qf', wsf')"
          by (cases "run_loop sel ord (Suc i) q' ws'")
        from "1.prems"(1) avail Pair Some pk rec
        have picks: "picks = (task, m, ws) # ps"
          by simp
        from Pop_Some Pair Some obtain ys zs where q: "q = ys @ task # zs" "q' = ys @ zs"
          by blast
        with "1.prems"(2) have c0: "0 \<le> sint (taskSlot task)"
          and q'pos: "\<forall>t \<in> set q'. 0 \<le> sint (taskSlot t)"
          by auto
        have IH: "regular_cost n ps \<le> sint a' \<and>
              fallback_count n ps \<le> (if 0 < sint a' then 1 else 0)"
          if "ws' n = Some a'" "0 \<le> sint a'" for a'
          using "1.IH" [of topt q' task m ws' ps qf' wsf' a'] avail Pair Some pk rec q'pos
            "1.prems"(5) that by simp
        from pickNode_cases [OF pk]
        consider (none) "m = - 1" "ws' = ws"
          | (fit) b where "ws m = Some b" "sint (taskSlot task) \<le> sint b" "ws' = ws(m \<mapsto> b - taskSlot task)"
          | (fb) b where "ws m = Some b" "sint b < sint (taskSlot task)" "0 < sint b" "ws' = ws(m \<mapsto> 0)"
          by blast
        then show ?thesis
        proof cases
          case none
          with "1.prems" have "ws' n = Some a" "m \<noteq> n" by auto
          from IH [OF this(1) "1.prems"(4)] \<open>m \<noteq> n\<close> show ?thesis
            by (simp add: picks regular_cost_def fallback_count_def)
        next
          case fit
          show ?thesis
          proof (cases "m = n")
            case False
            with fit "1.prems" have "ws' n = Some a" by auto
            from IH [OF this "1.prems"(4)] False show ?thesis
              by (simp add: picks regular_cost_def fallback_count_def)
          next
            case True
            with fit "1.prems" have ba: "b = a" by simp
            have sub: "sint (a - taskSlot task) = sint a - sint (taskSlot task)"
              using c0 fit(2) ba by (intro sint_sub_no_wrap) simp_all
            have "ws' n = Some (a - taskSlot task)" "0 \<le> sint (a - taskSlot task)"
              using fit True ba sub by simp_all
            from IH [OF this] True fit ba sub c0 "1.prems"(3) show ?thesis
              by (auto simp: picks regular_cost_def fallback_count_def is_fallback_def split: if_splits)
          qed
        next
          case fb
          show ?thesis
          proof (cases "m = n")
            case False
            with fb "1.prems" have "ws' n = Some a" by auto
            from IH [OF this "1.prems"(4)] False show ?thesis
              by (simp add: picks regular_cost_def fallback_count_def)
          next
            case True
            with fb "1.prems" have ba: "b = a" by simp
            have "ws' n = Some 0" "0 \<le> sint (0::int64)"
              using fb True by simp_all
            from IH [OF this] True fb ba "1.prems"(3) show ?thesis
              by (auto simp: picks regular_cost_def fallback_count_def is_fallback_def split: if_splits)
          qed
        qed
      qed
    qed
  qed
qed

text \<open>
  C3. In one dispatch pass over a snapshot \<open>ws\<close>, whatever the queue, the fairness policy
  and the map iteration orders are: for a node \<open>n\<close> of the snapshot that starts the pass
  with \<open>a \<ge> 0\<close> available slots, the costs of the tasks assigned to \<open>n\<close> other than as a
  fallback sum to at most \<open>a\<close>, and at most one task is assigned to \<open>n\<close> as a fallback.
  Slot costs are not negative.
\<close>

theorem run_loop_slot_budget:
  assumes "\<forall>task \<in> set q. 0 \<le> sint (taskSlot task)"
    and "ws n = Some a" and "0 \<le> sint a" and "n \<noteq> - 1"
  shows "regular_cost n (fst (run_loop sel ord i q ws)) \<le> sint a \<and>
         fallback_count n (fst (run_loop sel ord i q ws)) \<le> 1"
proof -
  obtain picks qf wsf where "run_loop sel ord i q ws = (picks, qf, wsf)"
    by (cases "run_loop sel ord i q ws")
  from run_loop_slots [OF this assms] this show ?thesis
    by (auto split: if_splits)
qed

theorem run_loop_slot_budget_witness:
  "list_all (\<lambda>task. 0 \<le> sint (taskSlot task)) sample_queue \<and>
   sample_slots 2 = Some 2 \<and> 0 \<le> sint (2::int64) \<and> (2::int64) \<noteq> - 1 \<and>
   map (\<lambda>(task, node, ws). (taskID task, node))
     (fst (run_loop (\<lambda>q. 0) (\<lambda>i. [1, 2]) 0 sample_queue sample_slots))
     = [(11, 1), (12, 2), (13, 1)] \<and>
   regular_cost 2 (fst (run_loop (\<lambda>q. 0) (\<lambda>i. [1, 2]) 0 sample_queue sample_slots)) \<le> 2 \<and>
   fallback_count 2 (fst (run_loop (\<lambda>q. 0) (\<lambda>i. [1, 2]) 0 sample_queue sample_slots)) \<le> 1"
proof -
  have costs: "\<forall>task \<in> set sample_queue. 0 \<le> sint (taskSlot task)"
    by (simp add: sample_queue_def sample_task_def)
  have entry: "sample_slots 2 = Some 2"
    by (simp add: sample_slots_def)
  have picks: "map (\<lambda>(task, node, ws). (taskID task, node))
     (fst (run_loop (\<lambda>q. 0) (\<lambda>i. [1, 2]) 0 sample_queue sample_slots))
     = [(11, 1), (12, 2), (13, 1)]"
    by (simp add: sample_queue_def sample_slots_def sample_task_def Pop_def pickNode_def
        hasAvailableSlots_def)
  from run_loop_slot_budget [of sample_queue sample_slots 2 2 "\<lambda>q. 0" "\<lambda>i. [1, 2]" 0]
    costs entry picks
  show ?thesis by (simp add: list_all_iff)
qed

section \<open>Facts about the queue, the running map and the scheduler operations\<close>

lemma Exist_iff: "Exist tid q \<longleftrightarrow> (\<exists>t \<in> set q. taskID t = tid)"
  by (auto simp: Exist_def Get_def find_None_iff)

lemma Exist_Push: "Exist x (Push task q) \<longleftrightarrow> x = taskID task \<or> Exist x q"
  by (auto simp: Push_def Exist_iff)

lemma Exist_set_map: "Exist x q \<longleftrightarrow> x \<in> set (map taskID q)"
  by (auto simp: Exist_iff)

lemma distinct_Push: "distinct (map taskID q) \<Longrightarrow> distinct (map taskID (Push task q))"
  by (simp add: Push_def Exist_set_map)

lemma Exist_Remove: "Exist x (Remove tid q) \<longleftrightarrow> x \<noteq> tid \<and> Exist x q"
  by (auto simp: Remove_def Exist_iff)

lemma distinct_Remove: "distinct (map taskID q) \<Longrightarrow> distinct (map taskID (Remove tid q))"
  by (simp add: Remove_def distinct_map_filter)

lemma sched_inv_iff:
  "sched_inv s \<longleftrightarrow>
     distinct (map taskID (pendingTasks s)) \<and>
     (\<forall>x. Exist x (pendingTasks s) \<longrightarrow> map_of (runningTasks s) x = None)"
  by (auto simp: sched_inv_def Exist_iff)

lemma map_of_store_task_None:
  "map_of r x = None \<Longrightarrow> map_of (store_task k task r) x = None"
  by (auto simp: store_task_def map_of_map_entry split: option.splits)

lemma sched_inv_enqueue: "sched_inv s \<Longrightarrow> sched_inv (enqueue now task s)"
  by (auto simp: sched_inv_iff enqueue_def Exist_Push distinct_Push split: option.splits)

lemma sched_inv_AbortTask: "sched_inv s \<Longrightarrow> sched_inv (AbortTask tid s)"
  by (auto simp: sched_inv_iff AbortTask_def Exist_Remove distinct_Remove update_conv'
      split: option.splits)

lemma hooks_keep_idD:
  assumes "hooks_keep_id h"
  shows "taskID (snd (PreCheck h task)) = taskID task"
    and "taskID (snd (UpdateVersion h node task)) = taskID task"
    and "taskID (snd (AssignTask h task)) = taskID task"
    and "taskID (QueryResult h task) = taskID task"
    and "taskID (ResetTask h task) = taskID task"
  using assms unfolding hooks_keep_id_def by blast+

lemma processInit_keeps_id:
  "hooks_keep_id h \<Longrightarrow> taskID (snd (processInit h task node)) = taskID task"
proof -
  assume k: "hooks_keep_id h"
  obtain c t1 where p1: "PreCheck h task = (c, t1)" by (cases "PreCheck h task")
  obtain v t2 where p2: "UpdateVersion h node t1 = (v, t2)" by (cases "UpdateVersion h node t1")
  obtain a t3 where p3: "AssignTask h t2 = (a, t3)" by (cases "AssignTask h t2")
  from hooks_keep_idD(1) [OF k, of task] p1 have i1: "taskID t1 = taskID task"
    by simp
  from hooks_keep_idD(2) [OF k, of node t1] p2 have i2: "taskID t2 = taskID t1"
    by simp
  from hooks_keep_idD(3) [OF k, of t2] p3 have i3: "taskID t3 = taskID t2"
    by simp
  show ?thesis
    by (simp add: processInit_def p1 p2 p3 i1 i2 i3 SetState_def)
qed

lemma process_keeps_id:
  "hooks_keep_id h \<Longrightarrow> taskID (snd (process h task node)) = taskID task"
  by (simp add: process_def processInit_keeps_id split: JobState.splits)

lemma dispatch_cases:
  assumes "hooks_keep_id h"
  shows "\<exists>t1. taskID t1 = taskID task \<and>
     (dispatch h (task, node) s = s \<or>
      dispatch h (task, node) s = s\<lparr>pendingTasks := Push t1 (pendingTasks s)\<rparr> \<or>
      dispatch h (task, node) s = s\<lparr>runningTasks := AList.update (taskID t1) t1 (runningTasks s)\<rparr>)"
proof -
  define t1 where "t1 = (if node \<noteq> - 1 then snd (process h task node) else task)"
  have "taskID t1 = taskID task"
    using assms by (simp add: t1_def process_keeps_id)
  moreover have d: "dispatch h (task, node) s =
      (case taskState t1 of
         JobStateNone \<Rightarrow>
           if \<not> processNone h t1 then s\<lparr>pendingTasks := Push t1 (pendingTasks s)\<rparr> else s
       | JobStateInit \<Rightarrow> s\<lparr>pendingTasks := Push t1 (pendingTasks s)\<rparr>
       | _ \<Rightarrow> s\<lparr>runningTasks := AList.update (taskID t1) t1 (runningTasks s)\<rparr>)"
    unfolding dispatch_def t1_def by (simp only: prod.case Let_def)
  have "dispatch h (task, node) s = s \<or>
      dispatch h (task, node) s = s\<lparr>pendingTasks := Push t1 (pendingTasks s)\<rparr> \<or>
      dispatch h (task, node) s = s\<lparr>runningTasks := AList.update (taskID t1) t1 (runningTasks s)\<rparr>"
    unfolding d by (cases "taskState t1") simp_all
  ultimately show ?thesis by blast
qed

lemma dispatch_inv:
  assumes "sched_inv s" and "hooks_keep_id h" and "\<not> exist s (taskID task)"
  shows "sched_inv (dispatch h (task, node) s) \<and>
     (\<forall>x. exist (dispatch h (task, node) s) x \<longrightarrow> x = taskID task \<or> exist s x)"
proof -
  from dispatch_cases [OF assms(2), of task node s] obtain t1 where
    id: "taskID t1 = taskID task" and
    alt: "dispatch h (task, node) s = s \<or>
      dispatch h (task, node) s = s\<lparr>pendingTasks := Push t1 (pendingTasks s)\<rparr> \<or>
      dispatch h (task, node) s = s\<lparr>runningTasks := AList.update (taskID t1) t1 (runningTasks s)\<rparr>"
    by blast
  from assms(1) have dq: "distinct (map taskID (pendingTasks s))"
    and dj: "\<forall>x. Exist x (pendingTasks s) \<longrightarrow> map_of (runningTasks s) x = None"
    by (simp_all add: sched_inv_iff)
  from assms(3) have f1: "\<not> Exist (taskID task) (pendingTasks s)"
    and f2: "map_of (runningTasks s) (taskID task) = None"
    by (simp_all add: exist_def split: if_splits)
  from alt show ?thesis
  proof (elim disjE)
    assume "dispatch h (task, node) s = s"
    with assms show ?thesis by simp
  next
    assume e: "dispatch h (task, node) s = s\<lparr>pendingTasks := Push t1 (pendingTasks s)\<rparr>"
    show ?thesis
      unfolding e using dq dj f2 id
      by (simp add: sched_inv_iff exist_def Exist_Push distinct_Push)
  next
    assume e: "dispatch h (task, node) s = s\<lparr>runningTasks := AList.update (taskID t1) t1 (runningTasks s)\<rparr>"
    show ?thesis
      unfolding e using dq dj f1 id
      by (auto simp: sched_inv_iff exist_def update_conv')
  qed
qed

lemma fold_dispatch_inv:
  assumes "hooks_keep_id h"
  shows "sched_inv s \<Longrightarrow> distinct (map (\<lambda>d. taskID (fst d)) ds) \<Longrightarrow>
     \<forall>d \<in> set ds. \<not> exist s (taskID (fst d)) \<Longrightarrow>
     sched_inv (fold (dispatch h) ds s)"
proof (induction ds arbitrary: s)
  case Nil
  then show ?case by simp
next
  case (Cons d ds)
  obtain task node where d: "d = (task, node)" by (cases d)
  from Cons.prems(3) d have fresh: "\<not> exist s (taskID task)" by simp
  from dispatch_inv [OF Cons.prems(1) assms fresh, of node]
  have inv': "sched_inv (dispatch h d s)"
    and sub: "\<forall>x. exist (dispatch h d s) x \<longrightarrow> x = taskID task \<or> exist s x"
    unfolding d by blast+
  from Cons.prems(2) have dist: "distinct (map (\<lambda>d. taskID (fst d)) ds)"
    and nin: "\<forall>e \<in> set ds. taskID (fst e) \<noteq> taskID task"
    unfolding d by (auto simp: image_iff)
  have fresh': "\<forall>e \<in> set ds. \<not> exist (dispatch h d s) (taskID (fst e))"
  proof
    fix e assume e: "e \<in> set ds"
    with Cons.prems(3) have "\<not> exist s (taskID (fst e))" by simp
    with sub nin e show "\<not> exist (dispatch h d s) (taskID (fst e))" by metis
  qed
  from Cons.IH [OF inv' dist fresh'] show ?case by simp
qed

lemma run_loop_tasks:
  "run_loop sel ord i q ws = (picks, qf, wsf) \<Longrightarrow> distinct (map taskID q) \<Longrightarrow>
     distinct (map taskID (map fst picks @ qf)) \<and> set (map fst picks @ qf) \<subseteq> set q"
proof (induction sel ord i q ws arbitrary: picks qf wsf rule: run_loop.induct)
  case (1 sel ord i q ws)
  show ?case
  proof (cases "hasAvailableSlots (ord i) ws")
    case False
    with "1.prems" show ?thesis by simp
  next
    case avail: True
    show ?thesis
    proof (cases "Pop sel q")
      case (Pair topt q')
      show ?thesis
      proof (cases topt)
        case None
        with "1.prems" avail Pair show ?thesis by simp
      next
        case (Some task)
        obtain m ws' where pk: "pickNode (ord i) ws (taskSlot task) = (m, ws')"
          by (cases "pickNode (ord i) ws (taskSlot task)")
        obtain ps qf' wsf' where rec: "run_loop sel ord (Suc i) q' ws' = (ps, qf', wsf')"
          by (cases "run_loop sel ord (Suc i) q' ws'")
        from "1.prems"(1) avail Pair Some pk rec
        have res: "picks = (task, m, ws) # ps" "qf = qf'"
          by simp_all
        from Pop_Some Pair Some obtain ys zs where q: "q = ys @ task # zs" "q' = ys @ zs"
          by blast
        with "1.prems"(2) have dq': "distinct (map taskID q')"
          and fresh: "taskID task \<notin> set (map taskID q')"
          by auto
        have IH: "distinct (map taskID (map fst ps @ qf')) \<and> set (map fst ps @ qf') \<subseteq> set q'"
          using "1.IH" [of topt q' task m ws' ps qf' wsf'] avail Pair Some pk rec dq' by simp
        then have IH1: "distinct (map taskID (map fst ps @ qf'))"
          and IH2: "set (map fst ps @ qf') \<subseteq> set q'"
          by blast+
        from IH2 have "set (map taskID (map fst ps @ qf')) \<subseteq> set (map taskID q')"
          by (metis image_mono set_map)
        with fresh have nin: "taskID task \<notin> set (map taskID (map fst ps @ qf'))" by blast
        from q have "task \<in> set q" "set q' \<subseteq> set q" by auto
        with IH2 have sub: "set (task # map fst ps @ qf') \<subseteq> set q"
          by auto
        from IH1 nin have "distinct (map taskID (task # map fst ps @ qf'))"
          by (simp only: list.map distinct.simps) simp
        with sub show ?thesis
          unfolding res by simp
      qed
    qed
  qed
qed

lemma sched_inv_run:
  assumes "sched_inv s" and "hooks_keep_id h"
  shows "sched_inv (run h sel ord ws s)"
proof (cases "TaskCount (pendingTasks s) = 0")
  case True
  with assms show ?thesis by (simp add: run_def)
next
  case False
  obtain picks qf wsf where rl: "run_loop sel ord 0 (pendingTasks s) ws = (picks, qf, wsf)"
    by (cases "run_loop sel ord 0 (pendingTasks s) ws")
  from assms(1) have dq: "distinct (map taskID (pendingTasks s))"
    and dj: "\<forall>x. Exist x (pendingTasks s) \<longrightarrow> map_of (runningTasks s) x = None"
    by (simp_all add: sched_inv_iff)
  from run_loop_tasks [OF rl dq]
  have dist: "distinct (map taskID (map fst picks @ qf))"
    and sub: "set (map fst picks @ qf) \<subseteq> set (pendingTasks s)"
    by blast+
  define ds where "ds = map (\<lambda>(task, node, ws). (task, node)) picks"
  have fst_ds: "map fst ds = map fst picks"
    by (auto simp: ds_def)
  have ids_ds: "map (\<lambda>d. taskID (fst d)) ds = map taskID (map fst picks)"
    using arg_cong [OF fst_ds, of "map taskID"] by (simp add: comp_def)
  define s1 where "s1 = s\<lparr>pendingTasks := qf\<rparr>"
  from dist have dqf: "distinct (map taskID qf)"
    and dps: "distinct (map taskID (map fst picks))"
    and djq: "set (map taskID (map fst picks)) \<inter> set (map taskID qf) = {}"
    by (simp_all only: map_append distinct_append)
  from sub have subq: "set qf \<subseteq> set (pendingTasks s)"
    and subp: "set (map fst picks) \<subseteq> set (pendingTasks s)"
    by simp_all
  from subq have Eq: "Exist x (pendingTasks s)" if "Exist x qf" for x
    using that unfolding Exist_iff by blast
  have inv1: "sched_inv s1"
    unfolding sched_inv_iff s1_def using dqf Eq dj by simp
  have d1: "distinct (map (\<lambda>d. taskID (fst d)) ds)"
    using dps ids_ds by simp
  have fresh: "\<forall>d \<in> set ds. \<not> exist s1 (taskID (fst d))"
  proof
    fix d assume "d \<in> set ds"
    then have "fst d \<in> set (map fst ds)" by simp
    then have m: "fst d \<in> set (map fst picks)" by (simp only: fst_ds)
    then have "taskID (fst d) \<in> set (map taskID (map fst picks))"
      by (metis imageI set_map)
    with djq have "taskID (fst d) \<notin> set (map taskID qf)" by blast
    then have nq: "\<not> Exist (taskID (fst d)) qf"
      unfolding Exist_iff by (metis imageI set_map)
    from m subp have "Exist (taskID (fst d)) (pendingTasks s)"
      unfolding Exist_iff by blast
    with dj have "map_of (runningTasks s) (taskID (fst d)) = None" by blast
    with nq show "\<not> exist s1 (taskID (fst d))"
      by (simp add: exist_def s1_def)
  qed
  from fold_dispatch_inv [OF assms(2) inv1 d1 fresh] False rl show ?thesis
    by (simp add: run_def ds_def s1_def)
qed

lemma processFinished_keeps_id: "taskID (snd (processFinished h task)) = taskID task"
  by (simp add: processFinished_def Let_def)

lemma processInProgress_keeps_id:
  "hooks_keep_id h \<Longrightarrow> taskID (snd (processInProgress h task)) = taskID task"
  by (simp add: processInProgress_def Let_def processFinished_keeps_id SetState_def hooks_keep_idD)

lemma checkProcessingTask_cases:
  assumes "checkProcessingTask h task q = (suc, t1, q1)" and "hooks_keep_id h"
  shows "taskID t1 = taskID task \<and> (q1 = q \<or> (suc \<and> q1 = Push t1 q))"
proof (cases "taskState task")
  case JobStateInProgress
  with assms processInProgress_keeps_id [OF assms(2), of task] show ?thesis
    by (auto simp: checkProcessingTask_def split: prod.splits)
next
  case JobStateRetry
  with assms show ?thesis
    by (auto simp: checkProcessingTask_def processRetry_def Let_def SetState_def hooks_keep_idD
        split: if_splits)
next
  case JobStateFinished
  with assms processFinished_keeps_id [of h task] show ?thesis
    by (auto simp: checkProcessingTask_def split: prod.splits)
next
  case JobStateFailed
  with assms processFinished_keeps_id [of h task] show ?thesis
    by (auto simp: checkProcessingTask_def split: prod.splits)
qed (use assms in \<open>auto simp: checkProcessingTask_def\<close>)

lemma sched_inv_poll_task:
  assumes "sched_inv s" and "hooks_keep_id h"
  shows "sched_inv (poll_task h entry s)"
proof -
  obtain k task where entry: "entry = (k, task)" by (cases entry)
  obtain suc t1 q1 where c: "checkProcessingTask h task (pendingTasks s) = (suc, t1, q1)"
    by (cases "checkProcessingTask h task (pendingTasks s)")
  from checkProcessingTask_cases [OF c assms(2)]
  have alt: "q1 = pendingTasks s \<or> (suc \<and> q1 = Push t1 (pendingTasks s))" by blast
  define r1 where "r1 = store_task k t1 (runningTasks s)"
  from assms(1) have dq: "distinct (map taskID (pendingTasks s))"
    and dj: "\<forall>x. Exist x (pendingTasks s) \<longrightarrow> map_of (runningTasks s) x = None"
    by (simp_all add: sched_inv_iff)
  from dj have dj1: "\<forall>x. Exist x (pendingTasks s) \<longrightarrow> map_of r1 x = None"
    by (simp add: r1_def map_of_store_task_None)
  have res: "poll_task h entry s =
      s\<lparr>pendingTasks := q1, runningTasks := (if suc then AList.delete (taskID t1) r1 else r1)\<rparr>"
    by (simp add: poll_task_def entry c r1_def Let_def)
  from alt show ?thesis
  proof
    assume "q1 = pendingTasks s"
    with dq dj1 show ?thesis
      unfolding res by (simp add: sched_inv_iff delete_conv')
  next
    assume "suc \<and> q1 = Push t1 (pendingTasks s)"
    with dq dj1 show ?thesis
      unfolding res by (simp add: sched_inv_iff delete_conv' Exist_Push distinct_Push)
  qed
qed

lemma sched_inv_fold_poll:
  "hooks_keep_id h \<Longrightarrow> sched_inv s \<Longrightarrow> sched_inv (fold (poll_task h) es s)"
  by (induction es arbitrary: s) (simp_all add: sched_inv_poll_task)

lemma sched_inv_checkProcessingTasks:
  "hooks_keep_id h \<Longrightarrow> sched_inv s \<Longrightarrow> sched_inv (checkProcessingTasks h s)"
  by (simp add: checkProcessingTasks_def sched_inv_fold_poll)

lemma sched_inv_apply_op: "op_keeps_id op \<Longrightarrow> sched_inv s \<Longrightarrow> sched_inv (apply_op op s)"
  by (cases op)
    (simp_all add: sched_inv_enqueue sched_inv_AbortTask sched_inv_run sched_inv_checkProcessingTasks)

lemma sched_inv_fold_ops:
  "\<forall>op \<in> set ops. op_keeps_id op \<Longrightarrow> sched_inv s \<Longrightarrow> sched_inv (fold apply_op ops s)"
  by (induction ops arbitrary: s) (simp_all add: sched_inv_apply_op)

section \<open>Claims about the scheduler\<close>

lemmas sample_defs =
  sample_ops_def sample_sched_def sample_queue_def sample_task_def sample_hooks_def sample_slots_def
  sample_retry_def sample_retry_sched_def
lemmas sched_defs =
  enqueue_def run_def AbortTask_def checkProcessingTasks_def poll_task_def checkProcessingTask_def
  processInProgress_def processFinished_def processRetry_def dispatch_def process_def processInit_def
  processNone_def Push_def Pop_def Get_def Exist_def Remove_def TaskCount_def pickNode_def
  hasAvailableSlots_def SetState_def store_task_def exist_def Let_def

lemma sample_hooks_keep_id: "hooks_keep_id (sample_hooks known dropped)"
  by (simp add: hooks_keep_id_def sample_hooks_def SetState_def)

text \<open>
  C1. Aborting a task that is in the pending queue takes it out of the queue and puts it
  into the running map in state failed with fail reason "canceled"; aborting a task that
  is not queued but in the running map leaves the queue as it is and sets the task in the
  running map to failed with reason "canceled".
\<close>

theorem AbortTask_spec:
  "(Get tid (pendingTasks s) = Some task \<longrightarrow>
      \<not> Exist tid (pendingTasks (AbortTask tid s)) \<and>
      map_of (runningTasks (AbortTask tid s)) tid
        = Some (task\<lparr>taskState := JobStateFailed, failReason := ''canceled''\<rparr>)) \<and>
   (Get tid (pendingTasks s) = None \<and> map_of (runningTasks s) tid = Some task \<longrightarrow>
      pendingTasks (AbortTask tid s) = pendingTasks s \<and>
      map_of (runningTasks (AbortTask tid s)) tid
        = Some (task\<lparr>taskState := JobStateFailed, failReason := ''canceled''\<rparr>))"
  by (simp add: AbortTask_def Exist_Remove update_conv' SetState_def)

theorem AbortTask_spec_witness:
  "Get 12 (pendingTasks sample_sched) = Some (sample_task 12 (- 1) 5 JobStateInit) \<and>
   \<not> Exist 12 (pendingTasks (AbortTask 12 sample_sched)) \<and>
   map_of (runningTasks (AbortTask 12 sample_sched)) 12
     = Some ((sample_task 12 (- 1) 5 JobStateInit)\<lparr>taskState := JobStateFailed, failReason := ''canceled''\<rparr>) \<and>
   Get 31 (pendingTasks sample_retry_sched) = None \<and>
   map_of (runningTasks sample_retry_sched) 31 = Some sample_retry \<and>
   pendingTasks (AbortTask 31 sample_retry_sched) = pendingTasks sample_retry_sched \<and>
   map_of (runningTasks (AbortTask 31 sample_retry_sched)) 31
     = Some (sample_retry\<lparr>taskState := JobStateFailed, failReason := ''canceled''\<rparr>)"
proof -
  have a: "Get 12 (pendingTasks sample_sched) = Some (sample_task 12 (- 1) 5 JobStateInit)"
    by (simp add: sample_defs Get_def)
  have b: "Get 31 (pendingTasks sample_retry_sched) = None"
    "map_of (runningTasks sample_retry_sched) 31 = Some sample_retry"
    by (simp_all add: sample_defs Get_def)
  from AbortTask_spec [of 12 sample_sched "sample_task 12 (- 1) 5 JobStateInit"]
    AbortTask_spec [of 31 sample_retry_sched sample_retry] a b
  show ?thesis by simp
qed

text \<open>
  C4. Start from a scheduler whose queue and running map share no task id and run any
  history of \<open>enqueue\<close>, \<open>AbortTask\<close>, dispatch passes and polling passes (whose hooks
  leave task ids alone): after the history, and so at every point between two
  operations, every tracked task is in the queue or in the running map and never in
  both.
\<close>

theorem pending_xor_running:
  assumes "sched_inv s0" and "\<forall>op \<in> set ops. op_keeps_id op"
  shows "\<forall>tid. exist (fold apply_op ops s0) tid \<longrightarrow>
     (Exist tid (pendingTasks (fold apply_op ops s0))
        \<or> map_of (runningTasks (fold apply_op ops s0)) tid \<noteq> None) \<and>
     \<not> (Exist tid (pendingTasks (fold apply_op ops s0))
        \<and> map_of (runningTasks (fold apply_op ops s0)) tid \<noteq> None)"
proof -
  from sched_inv_fold_ops [OF assms(2) assms(1)]
  have "sched_inv (fold apply_op ops s0)" .
  then show ?thesis
    by (simp add: sched_inv_iff exist_def)
qed

theorem pending_xor_running_witness:
  "sched_inv sample_sched \<and> list_all op_keeps_id sample_ops \<and>
   map taskID (pendingTasks (fold apply_op sample_ops sample_sched)) = [21] \<and>
   map fst (runningTasks (fold apply_op sample_ops sample_sched)) = [11, 13] \<and>
   exist (fold apply_op sample_ops sample_sched) 11 \<and>
   \<not> Exist 11 (pendingTasks (fold apply_op sample_ops sample_sched)) \<and>
   map_of (runningTasks (fold apply_op sample_ops sample_sched)) 11 \<noteq> None"
proof -
  have i: "sched_inv sample_sched"
    by (simp add: sched_inv_def sample_defs)
  have k: "\<forall>op \<in> set sample_ops. op_keeps_id op"
    by (simp add: sample_ops_def sample_hooks_keep_id)
  have p: "map taskID (pendingTasks (fold apply_op sample_ops sample_sched)) = [21]"
    by (simp add: sample_defs sched_defs)
  have r: "map fst (runningTasks (fold apply_op sample_ops sample_sched)) = [11, 13]"
    by (simp add: sample_defs sched_defs)
  have e: "exist (fold apply_op sample_ops sample_sched) 11"
    by (simp add: sample_defs sched_defs)
  have n: "\<not> Exist 11 (pendingTasks (fold apply_op sample_ops sample_sched))"
    using p by (simp add: Exist_set_map)
  from pending_xor_running [OF i k] e
  have "map_of (runningTasks (fold apply_op sample_ops sample_sched)) 11 \<noteq> None"
    using n by blast
  with i k p r e n show ?thesis
    by (simp add: list_all_iff)
qed

text \<open>
  C9, as the claim stands: a running task in state retry whose worker is still
  registered and whose drop on the worker fails is neither pushed onto the queue nor
  removed from the running map by a polling pass; it stays in the running map in state
  retry.
\<close>

theorem processRetry_drop_failure:
  "taskState sample_retry = JobStateRetry \<and>
   map_of (runningTasks sample_retry_sched) 31 = Some sample_retry \<and>
   pendingTasks (checkProcessingTasks (sample_hooks True False) sample_retry_sched) = [] \<and>
   map_of (runningTasks (checkProcessingTasks (sample_hooks True False) sample_retry_sched)) 31
     = Some sample_retry"
  by (simp add: sample_defs sched_defs)

text \<open>
  C9, amended. For a running task in state retry, one round of the polling loop first
  drops the task on its worker when the worker is still registered. When the worker is
  gone or the drop succeeds, the task is set to state init with an empty fail reason,
  reset, pushed onto the pending queue and removed from the running map. When the drop
  fails, the queue is left as it is and the task stays in the running map, unchanged.
\<close>

theorem poll_task_retry:
  assumes "taskState task = JobStateRetry"
    and "map_of (runningTasks s) (taskID task) = Some task"
    and "\<not> Exist (taskID task) (pendingTasks s)"
    and "hooks_keep_id h"
  shows "(\<not> GetClientByID h (nodeID task) \<or> DropTaskOnWorker h task \<longrightarrow>
            pendingTasks (poll_task h (taskID task, task) s)
              = pendingTasks s @ [ResetTask h (task\<lparr>taskState := JobStateInit, failReason := []\<rparr>)] \<and>
            map_of (runningTasks (poll_task h (taskID task, task) s)) (taskID task) = None) \<and>
         (GetClientByID h (nodeID task) \<and> \<not> DropTaskOnWorker h task \<longrightarrow>
            pendingTasks (poll_task h (taskID task, task) s) = pendingTasks s \<and>
            map_of (runningTasks (poll_task h (taskID task, task) s)) (taskID task) = Some task)"
proof -
  define t1 where "t1 = ResetTask h (task\<lparr>taskState := JobStateInit, failReason := []\<rparr>)"
  have id: "taskID t1 = taskID task"
    using hooks_keep_idD(5) [OF assms(4)] by (simp add: t1_def)
  have push: "Push t1 (pendingTasks s) = pendingTasks s @ [t1]"
    using assms(3) id by (simp add: Push_def)
  have stay: "map_of (store_task (taskID task) task (runningTasks s)) (taskID task) = Some task"
    using assms(2) by (simp add: store_task_def map_of_map_entry)
  show ?thesis
    using assms(1) push id stay
    by (simp add: poll_task_def checkProcessingTask_def processRetry_def SetState_def Let_def
        delete_conv' flip: t1_def)
qed

theorem poll_task_retry_witness:
  "taskState sample_retry = JobStateRetry \<and>
   map_of (runningTasks sample_retry_sched) (taskID sample_retry) = Some sample_retry \<and>
   \<not> Exist (taskID sample_retry) (pendingTasks sample_retry_sched) \<and>
   hooks_keep_id (sample_hooks True True) \<and> hooks_keep_id (sample_hooks True False) \<and>
   pendingTasks (poll_task (sample_hooks True True) (taskID sample_retry, sample_retry) sample_retry_sched)
     = [sample_retry\<lparr>taskState := JobStateInit, nodeID := 0\<rparr>] \<and>
   map_of (runningTasks (poll_task (sample_hooks True True) (taskID sample_retry, sample_retry)
     sample_retry_sched)) (taskID sample_retry) = None \<and>
   pendingTasks (poll_task (sample_hooks True False) (taskID sample_retry, sample_retry) sample_retry_sched)
     = [] \<and>
   map_of (runningTasks (poll_task (sample_hooks True False) (taskID sample_retry, sample_retry)
     sample_retry_sched)) (taskID sample_retry) = Some sample_retry"
proof -
  have a: "taskState sample_retry = JobStateRetry"
    "map_of (runningTasks sample_retry_sched) (taskID sample_retry) = Some sample_retry"
    "\<not> Exist (taskID sample_retry) (pendingTasks sample_retry_sched)"
    by (simp_all add: sample_defs Exist_def Get_def)
  note k = sample_hooks_keep_id [of True True] sample_hooks_keep_id [of True False]
  from poll_task_retry [OF a k(1)] poll_task_retry [OF a k(2)] a k
  show ?thesis
    by (simp add: sample_defs)
qed

section \<open>Facts about the channel records and the manager\<close>

lemma sint_inc_no_wrap:
  fixes t :: int64
  assumes "sint t < 2 ^ 63 - 1"
  shows "sint (t + 1) = sint t + 1"
proof -
  have "- (2 ^ 63) \<le> sint t"
    using sint_ge [of t] by simp
  with assms have "- (2 ^ 63) \<le> sint t + 1" and "sint t + 1 < 2 ^ 63"
    by simp_all
  then have "signed_take_bit 63 (sint t + 1) = sint t + 1"
    by (simp add: signed_take_bit_int_eq_self)
  then show ?thesis
    by (simp add: sint_word_ariths)
qed

lemma TryAssign_term:
  "sint (Term (Channel m)) < 2 ^ 63 - 1 \<Longrightarrow>
     sint (Term (Channel (snd (TryAssignToServerID mode node m)))) \<le> sint (Term (Channel m)) + 1"
  by (simp add: TryAssignToServerID_def Let_def sint_inc_no_wrap)

lemma TryAssign_keeps_inv:
  assumes "term_above_history m" and "sint (Term (Channel m)) < 2 ^ 63 - 1"
  shows "term_above_history (snd (TryAssignToServerID mode node m))"
proof -
  have inc: "sint (Term (Channel m) + 1) = sint (Term (Channel m)) + 1"
    using assms(2) by (rule sint_inc_no_wrap)
  from assms(1) have "\<forall>entry \<in> set (Histories m). sint (logTerm entry) < sint (Term (Channel m)) + 1"
    unfolding term_above_history_def by fastforce
  then show ?thesis
    by (simp add: TryAssignToServerID_def Let_def term_above_history_def inc assms(1) [unfolded term_above_history_def])
qed

lemma AssignDone_keeps_inv:
  "term_above_history m \<Longrightarrow> term_above_history (AssignToServerDone now m)"
  by (simp add: AssignToServerDone_def term_above_history_def)

lemma AssignDone_term: "Term (Channel (AssignToServerDone now m)) = Term (Channel m)"
  by (simp add: AssignToServerDone_def)

lemma apply_channel_op_step:
  assumes "term_above_history m" and "sint (Term (Channel m)) < 2 ^ 63 - 1"
  shows "term_above_history (apply_channel_op op m) \<and>
         sint (Term (Channel (apply_channel_op op m))) \<le> sint (Term (Channel m)) + 1"
proof (cases op)
  case (TryAssign mode node)
  with assms TryAssign_keeps_inv [OF assms] TryAssign_term [OF assms(2)] show ?thesis by simp
next
  case (AssignDone now)
  with assms AssignDone_keeps_inv [OF assms(1)] show ?thesis by (simp add: AssignDone_term)
qed

lemma fold_channel_ops_inv:
  "term_above_history m \<Longrightarrow> sint (Term (Channel m)) + int (length ops) < 2 ^ 63 \<Longrightarrow>
     term_above_history (fold apply_channel_op ops m)"
proof (induction ops arbitrary: m)
  case Nil
  then show ?case by simp
next
  case (Cons op ops)
  from Cons.prems(2) have small: "sint (Term (Channel m)) < 2 ^ 63 - 1" by simp
  from apply_channel_op_step [OF Cons.prems(1) small, of op]
  have inv: "term_above_history (apply_channel_op op m)"
    and le: "sint (Term (Channel (apply_channel_op op m))) \<le> sint (Term (Channel m)) + 1"
    by blast+
  from le Cons.prems(2)
  have "sint (Term (Channel (apply_channel_op op m))) + int (length ops) < 2 ^ 63" by simp
  from Cons.IH [OF inv this] show ?case by simp
qed

lemma TryAssign_skip:
  "matches_update u m \<Longrightarrow> State m = PCHANNEL_META_STATE_ASSIGNED \<Longrightarrow>
     TryAssignToServerID (AccessMode (assignedChannel u)) (assignedNode u) m = (False, m)"
  by (simp add: TryAssignToServerID_def matches_update_def)

lemma TryAssign_result:
  "TryAssignToServerID (AccessMode (assignedChannel u)) (assignedNode u) m = (b, m') \<Longrightarrow>
     matches_update u m' \<and>
     (State m' = PCHANNEL_META_STATE_ASSIGNING \<or> State m' = PCHANNEL_META_STATE_ASSIGNED)"
  by (auto simp: TryAssignToServerID_def matches_update_def CurrentServerID_def Let_def
      split: if_splits)

lemma assign_loop_skips:
  "already_assigned cm updates \<Longrightarrow> assign_loop persist updates cm = (None, cm)"
proof (induction updates)
  case Nil
  then show ?case by simp
next
  case (Cons x updates)
  obtain cid u where x: "x = (cid, u)" by (cases x)
  from Cons.prems x obtain m where m: "channels cm cid = Some m" "matches_update u m"
    "State m = PCHANNEL_META_STATE_ASSIGNED"
    by (auto simp: already_assigned_def split: option.splits)
  from Cons.prems have "already_assigned cm updates"
    by (simp add: already_assigned_def)
  with Cons.IH have "assign_loop persist updates cm = (None, cm)" by simp
  with m x TryAssign_skip [OF m(2) m(3)] show ?case by simp
qed

lemma assign_loop_other:
  "assign_loop persist updates cm = (r, cm') \<Longrightarrow> cid \<notin> set (map fst updates) \<Longrightarrow>
     channels cm' cid = channels cm cid"
proof (induction updates arbitrary: cm)
  case Nil
  then show ?case by simp
next
  case (Cons x updates)
  obtain c u where x: "x = (c, u)" by (cases x)
  with Cons.prems(2) have ne: "c \<noteq> cid" and nin: "cid \<notin> set (map fst updates)" by auto
  show ?case
  proof (cases "channels cm c")
    case None
    with Cons.prems(1) x show ?thesis by simp
  next
    case (Some m)
    obtain b m' where t: "TryAssignToServerID (AccessMode (assignedChannel u)) (assignedNode u) m = (b, m')"
      by (cases "TryAssignToServerID (AccessMode (assignedChannel u)) (assignedNode u) m")
    show ?thesis
    proof (cases b)
      case False
      with Cons.prems(1) x Some t have "assign_loop persist updates cm = (r, cm')" by simp
      from Cons.IH [OF this nin] show ?thesis .
    next
      case True
      define cm1 where "cm1 = cm\<lparr>channels := (channels cm)(c \<mapsto> m')\<rparr>"
      show ?thesis
      proof (cases "persist m'")
        case False
        with Cons.prems(1) x Some t True have "cm' = cm1"
          by (simp add: cm1_def)
        with ne show ?thesis by (simp add: cm1_def)
      next
        case p: True
        with Cons.prems(1) x Some t True
        have "assign_loop persist updates (cm1\<lparr>persisted := persisted cm1 @ [m']\<rparr>) = (r, cm')"
          by (simp add: cm1_def)
        from Cons.IH [OF this nin] ne show ?thesis by (simp add: cm1_def)
      qed
    qed
  qed
qed

lemma assign_loop_result:
  "assign_loop persist updates cm = (None, cm') \<Longrightarrow> distinct (map fst updates) \<Longrightarrow>
     (cid, u) \<in> set updates \<Longrightarrow>
     \<exists>m. channels cm' cid = Some m \<and> matches_update u m \<and>
       (State m = PCHANNEL_META_STATE_ASSIGNING \<or> State m = PCHANNEL_META_STATE_ASSIGNED)"
proof (induction updates arbitrary: cm)
  case Nil
  then show ?case by simp
next
  case (Cons x updates)
  obtain c v where x: "x = (c, v)" by (cases x)
  from Cons.prems(2) x have nin: "c \<notin> set (map fst updates)" and d: "distinct (map fst updates)"
    by simp_all
  from Cons.prems(1) x obtain m where Some: "channels cm c = Some m"
    by (cases "channels cm c") simp_all
  obtain b m' where t: "TryAssignToServerID (AccessMode (assignedChannel v)) (assignedNode v) m = (b, m')"
    by (cases "TryAssignToServerID (AccessMode (assignedChannel v)) (assignedNode v) m")
  note res = TryAssign_result [OF t]
  define cm1 where "cm1 = (if b then cm\<lparr>channels := (channels cm)(c \<mapsto> m'),
       persisted := persisted cm @ [m']\<rparr> else cm)"
  have same: "\<not> b \<Longrightarrow> m' = m"
    using t by (auto simp: TryAssignToServerID_def Let_def split: if_splits)
  have rest: "assign_loop persist updates cm1 = (None, cm')"
    using Cons.prems(1) x Some t by (cases b; cases "persist m'") (simp_all add: cm1_def)
  have at_c: "channels cm1 c = Some m'"
    using Some same by (cases b) (simp_all add: cm1_def)
  show ?case
  proof (cases "(cid, u) = x")
    case True
    with x have eq: "cid = c" "u = v" by simp_all
    from assign_loop_other [OF rest nin] at_c have "channels cm' c = Some m'" by simp
    with res eq show ?thesis by simp
  next
    case False
    with Cons.prems(3) have "(cid, u) \<in> set updates" by simp
    from Cons.IH [OF rest d this] show ?thesis .
  qed
qed

lemma confirm_other: "c \<noteq> cid \<Longrightarrow> channels (confirm now c cm) cid = channels cm cid"
  by (simp add: confirm_def split: option.splits)

lemma confirm_same:
  "channels (confirm now c cm) c = map_option (AssignToServerDone now) (channels cm c)"
  by (simp add: confirm_def split: option.splits)

lemma AssignDone_assigned:
  "matches_update u m \<Longrightarrow>
   State m = PCHANNEL_META_STATE_ASSIGNING \<or> State m = PCHANNEL_META_STATE_ASSIGNED \<Longrightarrow>
   matches_update u (AssignToServerDone now m) \<and>
   State (AssignToServerDone now m) = PCHANNEL_META_STATE_ASSIGNED"
  by (auto simp: AssignToServerDone_def matches_update_def CurrentServerID_def)

lemma fold_confirm_assigned:
  "channels cm cid = Some m \<Longrightarrow> matches_update u m \<Longrightarrow>
   (State m = PCHANNEL_META_STATE_ASSIGNED \<or>
    (State m = PCHANNEL_META_STATE_ASSIGNING \<and> cid \<in> set cids)) \<Longrightarrow>
   \<exists>m'. channels (fold (confirm now) cids cm) cid = Some m' \<and> matches_update u m' \<and>
     State m' = PCHANNEL_META_STATE_ASSIGNED"
proof (induction cids arbitrary: cm m)
  case Nil
  then show ?case by simp
next
  case (Cons c cids)
  show ?case
  proof (cases "c = cid")
    case True
    from Cons.prems have st: "State m = PCHANNEL_META_STATE_ASSIGNING \<or> State m = PCHANNEL_META_STATE_ASSIGNED"
      by blast
    from AssignDone_assigned [OF Cons.prems(2) st, of now] Cons.prems(1) True
    have "channels (confirm now c cm) cid = Some (AssignToServerDone now m)"
      "matches_update u (AssignToServerDone now m)"
      "State (AssignToServerDone now m) = PCHANNEL_META_STATE_ASSIGNED"
      by (simp_all add: confirm_same)
    from Cons.IH [OF this(1) this(2)] this(3) show ?thesis by simp
  next
    case False
    with Cons.prems have "channels (confirm now c cm) cid = Some m"
      "State m = PCHANNEL_META_STATE_ASSIGNED \<or>
        (State m = PCHANNEL_META_STATE_ASSIGNING \<and> cid \<in> set cids)"
      by (auto simp: confirm_other)
    from Cons.IH [OF this(1) Cons.prems(2) this(2)] show ?thesis by simp
  qed
qed

lemmas channel_defs =
  sample_channel_def sample_manager_def sample_updates_def sample_node_def sample_persist_def
  sample_manager1_def sample_manager2_def sample_manager_confirmed_def sample_channel_ops_def
  AssignPChannels_def TryAssignToServerID_def AssignToServerDone_def CurrentServerID_def
  confirm_def term_of_def Let_def

section \<open>Claims about the channel manager\<close>

text \<open>
  C6. A channel whose term is above the term of every entry of its history keeps this
  through every history of assignments and confirmations: \<open>TryAssignToServerID\<close> appends
  the old term (for a channel that was assigned before) and then increments the term,
  \<open>AssignToServerDone\<close> clears the history. The term is a 64-bit integer; the terms of
  the history stay below its maximum.
\<close>

theorem term_above_history_invariant:
  assumes "term_above_history m"
    and "sint (Term (Channel m)) + int (length ops) < 2 ^ 63"
  shows "\<forall>entry \<in> set (Histories (fold apply_channel_op ops m)).
           sint (logTerm entry) < sint (Term (Channel (fold apply_channel_op ops m)))"
  using fold_channel_ops_inv [OF assms] by (simp add: term_above_history_def)

theorem term_above_history_invariant_witness:
  "term_above_history sample_channel \<and>
   sint (Term (Channel sample_channel)) + int (length sample_channel_ops) < 2 ^ 63 \<and>
   map logTerm (Histories (fold apply_channel_op sample_channel_ops sample_channel)) = [1, 2] \<and>
   Term (Channel (fold apply_channel_op sample_channel_ops sample_channel)) = 3 \<and>
   list_all (\<lambda>entry. sint (logTerm entry)
       < sint (Term (Channel (fold apply_channel_op sample_channel_ops sample_channel))))
     (Histories (fold apply_channel_op sample_channel_ops sample_channel))"
proof -
  have a: "term_above_history sample_channel"
    by (simp add: term_above_history_def sample_channel_def)
  have b: "sint (Term (Channel sample_channel)) + int (length sample_channel_ops) < 2 ^ 63"
    by (simp add: sample_channel_def sample_channel_ops_def)
  have c: "map logTerm (Histories (fold apply_channel_op sample_channel_ops sample_channel)) = [1, 2]"
    "Term (Channel (fold apply_channel_op sample_channel_ops sample_channel)) = 3"
    by (simp_all add: channel_defs)
  from term_above_history_invariant [OF a b] a b c show ?thesis
    by (simp add: list_all_iff)
qed

text \<open>
  C5, as the claim stands: a second \<open>AssignPChannels\<close> with the same batch right after the
  first finds the channel in state assigning, so it increments the term again (1 to 2),
  persists a second record and increments the local counter again (1 to 2).
\<close>

theorem assign_twice_reassigns:
  "fst (AssignPChannels sample_persist sample_updates sample_manager) = None \<and>
   fst (AssignPChannels sample_persist sample_updates sample_manager1) = None \<and>
   term_of sample_manager1 ''c1'' = Some 1 \<and> term_of sample_manager2 ''c1'' = Some 2 \<and>
   length (persisted sample_manager1) = 1 \<and> length (persisted sample_manager2) = 2 \<and>
   versionLocal sample_manager1 = 1 \<and> versionLocal sample_manager2 = 2"
  by (simp add: channel_defs)

text \<open>
  C5, amended. When a first \<open>AssignPChannels\<close> with a batch has succeeded and every
  channel of the batch has been confirmed, a second call with the same batch succeeds,
  changes no channel record (no term is incremented) and persists nothing; it still
  increments the local counter of the version by one.
\<close>

theorem assign_again_after_confirm:
  assumes "distinct (map fst updates)"
    and "AssignPChannels persist1 updates cm = (None, cm1)"
  shows "AssignPChannels persist2 updates (fold (confirm now) (map fst updates) cm1)
     = (None, (fold (confirm now) (map fst updates) cm1)
          \<lparr>versionLocal := versionLocal (fold (confirm now) (map fst updates) cm1) + 1\<rparr>)"
proof -
  from assms(2) obtain cm0 where loop: "assign_loop persist1 updates cm = (None, cm0)"
    and cm1: "cm1 = cm0\<lparr>versionLocal := versionLocal cm0 + 1\<rparr>"
    by (auto simp: AssignPChannels_def split: prod.splits option.splits)
  define cm2 where "cm2 = fold (confirm now) (map fst updates) cm1"
  have "already_assigned cm2 updates"
    unfolding already_assigned_def
  proof (intro ballI, clarify)
    fix cid u assume mem: "(cid, u) \<in> set updates"
    from assign_loop_result [OF loop assms(1) mem] obtain m where
      m: "channels cm0 cid = Some m" "matches_update u m"
        "State m = PCHANNEL_META_STATE_ASSIGNING \<or> State m = PCHANNEL_META_STATE_ASSIGNED"
      by blast
    from m(1) have c1: "channels cm1 cid = Some m" by (simp add: cm1)
    from mem have "cid \<in> set (map fst updates)" by force
    with m(3) have "State m = PCHANNEL_META_STATE_ASSIGNED \<or>
      (State m = PCHANNEL_META_STATE_ASSIGNING \<and> cid \<in> set (map fst updates))" by blast
    from fold_confirm_assigned [OF c1 m(2) this, of now]
    show "case channels cm2 cid of None \<Rightarrow> False
       | Some m \<Rightarrow> matches_update u m \<and> State m = PCHANNEL_META_STATE_ASSIGNED"
      by (auto simp: cm2_def)
  qed
  from assign_loop_skips [OF this, of persist2] show ?thesis
    by (simp add: AssignPChannels_def cm2_def)
qed

theorem assign_again_after_confirm_witness:
  "distinct (map fst sample_updates) \<and>
   AssignPChannels sample_persist sample_updates sample_manager = (None, sample_manager1) \<and>
   term_of sample_manager_confirmed ''c1'' = Some 1 \<and>
   length (persisted sample_manager_confirmed) = 1 \<and>
   versionLocal sample_manager_confirmed = 1 \<and>
   AssignPChannels sample_persist sample_updates sample_manager_confirmed
     = (None, sample_manager_confirmed\<lparr>versionLocal := 2\<rparr>)"
proof -
  have a: "distinct (map fst sample_updates)"
    by (simp add: sample_updates_def)
  have b: "AssignPChannels sample_persist sample_updates sample_manager = (None, sample_manager1)"
    by (simp add: channel_defs)
  have c: "term_of sample_manager_confirmed ''c1'' = Some 1"
    "length (persisted sample_manager_confirmed) = 1"
    "versionLocal sample_manager_confirmed = 1"
    by (simp_all add: channel_defs)
  from assign_again_after_confirm [OF a b, of sample_persist 9] a b c show ?thesis
    by (simp add: sample_manager_confirmed_def)
qed

section \<open>Facts about the garbage collector\<close>

lemma checker_iff:
  "checker env segs segmentID objectPath prefix \<longleftrightarrow>
     (case find (\<lambda>seg. ID seg = segmentID) segs of
        None \<Rightarrow> False | Some info \<Rightarrow> log_referenced env prefix objectPath info)"
  by (simp add: checker_def GetSegments_def)

lemma scan_object_keys:
  assumes "key \<in> set (removedKeys (scan_object env segs prefix entry acc))"
  shows "key \<in> set (removedKeys acc) \<or> (Path (snd entry) = key \<and> removable env segs prefix entry)"
proof -
  obtain now h where e: "entry = (now, h)" by (cases entry)
  show ?thesis
  proof (cases "Err h \<or> time_Since now (ModTime h) \<le> missingTolerance env")
    case True
    with assms e show ?thesis by (auto simp: scan_object_def split: if_splits)
  next
    case False
    show ?thesis
    proof (cases "ParseSegmentIDByBinlog env (RootPath env) (Path h)")
      case None
      with assms e False show ?thesis by (simp add: scan_object_def Let_def)
    next
      case (Some segmentID)
      show ?thesis
      proof (cases "checker env segs segmentID (Path h) prefix")
        case True
        with assms e False Some show ?thesis by (simp add: scan_object_def Let_def)
      next
        case nochk: False
        then have "removable env segs prefix entry"
          using e False Some by (auto simp: removable_def checker_iff split: option.splits)
        moreover from assms e False Some nochk
        have "key \<in> set (removedKeys acc) \<or> Path h = key"
          by (auto simp: scan_object_def Let_def split: if_splits)
        ultimately show ?thesis using e by auto
      qed
    qed
  qed
qed

lemma fold_scan_object_keys:
  "key \<in> set (removedKeys (fold (scan_object env segs prefix) entries acc)) \<Longrightarrow>
     key \<in> set (removedKeys acc) \<or>
     (\<exists>entry \<in> set entries. Path (snd entry) = key \<and> removable env segs prefix entry)"
proof (induction entries arbitrary: acc)
  case Nil
  then show ?case by simp
next
  case (Cons e entries)
  from Cons.prems have "key \<in> set (removedKeys (fold (scan_object env segs prefix) entries
      (scan_object env segs prefix e acc)))" by simp
  from Cons.IH [OF this] scan_object_keys [of key env segs prefix e acc] show ?case
    by auto
qed

lemma fold_scan_prefix_keys:
  "key \<in> set (removedKeys (fold (scan_prefix env segs) ps acc)) \<Longrightarrow>
     key \<in> set (removedKeys acc) \<or>
     (\<exists>prefix \<in> set ps. \<exists>entry \<in> set (ListWithPrefix env prefix).
        Path (snd entry) = key \<and> removable env segs prefix entry)"
proof (induction ps arbitrary: acc)
  case Nil
  then show ?case by simp
next
  case (Cons p ps)
  from Cons.prems have "key \<in> set (removedKeys (fold (scan_prefix env segs) ps
      (scan_prefix env segs p acc)))" by simp
  from Cons.IH [OF this] fold_scan_object_keys [of key env segs p "ListWithPrefix env p" acc]
  show ?case
    by (auto simp: scan_prefix_def)
qed

lemma removable_old:
  "removable env segs prefix entry \<Longrightarrow>
     missingTolerance env < time_Since (fst entry) (ModTime (snd entry))"
  by (cases entry) (simp add: removable_def)



















lemmas scan_defs =
  sample_scan_env_def scan_def scan_prefix_def scan_object_def prefixes_def checker_def
  GetSegments_def log_referenced_def removable_def time_Since_def Let_def

section \<open>Claims about the garbage collector\<close>

text \<open>
  C10. Handling a pause command at time \<open>now\<close> with duration \<open>d\<close> sets the pause deadline
  to the maximum of its old value and \<open>now + d\<close>, so the deadline never moves back under
  a pause command; a resume command sets it to the zero time; and a command that moves
  the deadline back is a resume command.
\<close>

theorem pause_deadline_monotone:
  "pauseUntil (work_cmd now \<lparr>cmdType = GcCommand_Pause, duration = d\<rparr> gc) = max (pauseUntil gc) (now + d) \<and>
   pauseUntil gc \<le> pauseUntil (work_cmd now \<lparr>cmdType = GcCommand_Pause, duration = d\<rparr> gc) \<and>
   pauseUntil (work_cmd now \<lparr>cmdType = GcCommand_Resume, duration = d\<rparr> gc) = zero_time \<and>
   (pauseUntil (work_cmd now cmd gc) < pauseUntil gc \<longrightarrow> cmdType cmd = GcCommand_Resume)"
  by (auto simp: work_cmd_def Let_def split: GcCommand.splits)

theorem pause_deadline_monotone_witness:
  "pauseUntil (work_cmd 100 \<lparr>cmdType = GcCommand_Pause, duration = 50\<rparr> sample_gc) = 500 \<and>
   pauseUntil (work_cmd 100 \<lparr>cmdType = GcCommand_Pause, duration = 700\<rparr> sample_gc) = 800 \<and>
   pauseUntil (work_cmd 100 \<lparr>cmdType = GcCommand_Resume, duration = 0\<rparr> sample_gc) < pauseUntil sample_gc \<and>
   cmdType \<lparr>cmdType = GcCommand_Resume, duration = 0\<rparr> = GcCommand_Resume"
  using pause_deadline_monotone [of 100 50 sample_gc "\<lparr>cmdType = GcCommand_Resume, duration = 0\<rparr>"]
    pause_deadline_monotone [of 100 700 sample_gc "\<lparr>cmdType = GcCommand_Resume, duration = 0\<rparr>"]
    pause_deadline_monotone [of 100 0 sample_gc "\<lparr>cmdType = GcCommand_Resume, duration = 0\<rparr>"]
  by (simp add: sample_gc_def zero_time_def)

text \<open>
  C8. Every key that \<open>scan\<close> removes comes from an entry of the listing of one of the
  three log prefixes that carries no error, is older than the missing tolerance (its
  time since modification exceeds the tolerance, so an entry at or below the tolerance
  is never removed for its own sake), parses to a segment id, and whose segment is not in
  the metadata or does not reference the key in the logs that the prefix stands for.
\<close>

theorem scan_removes_only_removable:
  assumes "key \<in> set (removedKeys (scan env segs))"
  shows "\<exists>prefix \<in> set (prefixes env). \<exists>entry \<in> set (ListWithPrefix env prefix).
     Path (snd entry) = key \<and>
     missingTolerance env < time_Since (fst entry) (ModTime (snd entry)) \<and>
     removable env segs prefix entry"
proof -
  from fold_scan_prefix_keys [OF assms [unfolded scan_def]]
  have "\<exists>prefix \<in> set (prefixes env). \<exists>entry \<in> set (ListWithPrefix env prefix).
     Path (snd entry) = key \<and> removable env segs prefix entry"
    by simp
  then show ?thesis
    using removable_old by blast
qed

theorem scan_removes_only_removable_witness:
  "''files/insert_log/old'' \<in> set (removedKeys (scan sample_scan_env [])) \<and>
   ''files/insert_log/new'' \<notin> set (removedKeys (scan sample_scan_env [])) \<and>
   removable sample_scan_env [] ''files/insert_log''
     (1000, \<lparr>Path = ''files/insert_log/old'', ModTime = 0, Err = False\<rparr>) \<and>
   (\<exists>prefix \<in> set (prefixes sample_scan_env).
      \<exists>entry \<in> set (ListWithPrefix sample_scan_env prefix).
        Path (snd entry) = ''files/insert_log/old'' \<and>
        missingTolerance sample_scan_env < time_Since (fst entry) (ModTime (snd entry)) \<and>
        removable sample_scan_env [] prefix entry)"
proof -
  have a: "''files/insert_log/old'' \<in> set (removedKeys (scan sample_scan_env []))"
    by (simp add: scan_defs)
  have b: "''files/insert_log/new'' \<notin> set (removedKeys (scan sample_scan_env []))"
    by (simp add: scan_defs)
  have c: "removable sample_scan_env [] ''files/insert_log''
     (1000, \<lparr>Path = ''files/insert_log/old'', ModTime = 0, Err = False\<rparr>)"
    by (simp add: scan_defs)
  from scan_removes_only_removable [OF a] a b c show ?thesis
    by blast
qed




end
